theory Spec2Isabelle
  imports Main
begin

section \<open>The repository change notifier of \<open>git/models/repository.ts\<close>\<close>

text \<open>
  The class \<open>Repository\<close> watches the control directory of a working copy, classifies
  every watcher notification into change categories, accumulates the categories and
  publishes them through a debounced emitter that can be suspended and resumed. The
  class is embedded as a record of its private fields together with logs of what it
  sends to its collaborators (event emitters, logger, message service, the external git
  service); every method is a function from the record to the updated record.
\<close>

subsection \<open>Strings, paths and the two regular expressions\<close>

text \<open>\<open>String.prototype.endsWith\<close> and a prefix test at the current position.\<close>

definition endsWith :: "string \<Rightarrow> string \<Rightarrow> bool" where
  "endsWith s suf = (length suf \<le> length s \<and> drop (length s - length suf) s = suf)"

definition startsWith :: "string \<Rightarrow> string \<Rightarrow> bool" where
  "startsWith s pre = (take (length pre) s = pre)"

text \<open>
  \<open>const refsRegex = /\.git\/refs\/(heads|remotes|tags)/\<close>: \<open>refsRegex_at\<close> is a match
  that starts at the head of the string and returns capture group 1; \<open>refsRegex_exec\<close> is
  \<open>RegExp.prototype.exec\<close>, the leftmost match (\<open>None\<close> for \<open>null\<close>).
\<close>

definition refsRegex_at :: "string \<Rightarrow> string option" where
  "refsRegex_at s =
     (if startsWith s ''.git/refs/heads'' then Some ''heads''
      else if startsWith s ''.git/refs/remotes'' then Some ''remotes''
      else if startsWith s ''.git/refs/tags'' then Some ''tags''
      else None)"

fun refsRegex_exec :: "string \<Rightarrow> string option" where
  "refsRegex_exec [] = None"
| "refsRegex_exec (c # cs) =
     (case refsRegex_at (c # cs) of
        Some g \<Rightarrow> Some g
      | None \<Rightarrow> refsRegex_exec cs)"

text \<open>
  \<open>const ignoreGitRegex = /\.git(?:\/|\\|$)/\<close>: the text \<open>.git\<close> followed by a slash, a
  backslash (character \<open>0x5C\<close>) or the end of the string, anywhere in the string.
\<close>

definition ignoreGitRegex_at :: "string \<Rightarrow> bool" where
  "ignoreGitRegex_at s =
     (startsWith s ''.git'' \<and>
      (case drop 4 s of
         [] \<Rightarrow> True
       | d # _ \<Rightarrow> d = CHR ''/'' \<or> d = CHR 0x5C))"

fun ignoreGitRegex_test :: "string \<Rightarrow> bool" where
  "ignoreGitRegex_test [] = False"
| "ignoreGitRegex_test (c # cs) = (ignoreGitRegex_at (c # cs) \<or> ignoreGitRegex_test cs)"

text \<open>
  A path split at slashes and backslashes; a path lies inside a \<open>.git\<close> directory when
  one of its components is \<open>.git\<close>.
\<close>

definition isSep :: "char \<Rightarrow> bool" where
  "isSep c = (c = CHR ''/'' \<or> c = CHR 0x5C)"

fun components :: "string \<Rightarrow> string \<Rightarrow> string list" where
  "components acc [] = [acc]"
| "components acc (c # cs) =
     (if isSep c then acc # components [] cs else components (acc @ [c]) cs)"

definition insideGitDir :: "string \<Rightarrow> bool" where
  "insideGitDir p = (''.git'' \<in> set (components [] p))"

subsection \<open>Data model\<close>

datatype RepositoryChange =
  Config | Closed | Starred | Heads | Index | Ignores | Remotes | Stash | Tags | Unknown

text \<open>A \<open>vscode.Uri\<close>, reduced to the two properties the class reads.\<close>

record Uri =
  path :: string
  fsPath :: string

text \<open>What a rejected promise or a thrown exception carries.\<close>

datatype exn = TypeError | Failure string

record GitBranch =
  branchId :: string
  name :: string
  tracking :: "string option"

datatype refType = RBranch | RRevision | RStash | RTag

record GitReference =
  refType :: refType
  refName :: string
  ref :: string

text \<open>The calls the class makes to its external collaborators, in the order made.\<close>

datatype call =
  GitFetch
| GitCheckout string
| GitGetBranch
| GitGetBranches string
| GitStashApply string
| GitStashDelete string
| GitStashSave
| GetBuiltInGitRepository
| RepoPush
| ExecuteCommand string

text \<open>
  Modelled from the spec: \<open>Functions.debounce\<close> (\<open>system/function\<close>) is not among the
  sources. The spec describes it as a trailing-edge debounce: a call schedules the
  wrapped function one window after the call, and each further call resets the timer.
  A debounced function is its window and the time at which the timer is due, if armed.
\<close>

record debounced =
  wait :: nat
  due :: "nat option"

definition debounce :: "nat \<Rightarrow> debounced" where
  "debounce w = \<lparr>wait = w, due = None\<rparr>"

definition invoke :: "nat \<Rightarrow> debounced \<Rightarrow> debounced" where
  "invoke now d = d\<lparr>due := Some (now + wait d)\<rparr>"

text \<open>
  The fields of \<open>Repository\<close> without their leading underscore. \<open>clock\<close> is
  \<open>Date.now()\<close>. A cached promise is the outcome it settles to. \<open>fsInFlight\<close> holds the
  calls of \<open>excludeIgnoredUris\<close> that \<open>fireFileSystemChangeCore\<close> is awaiting. The next
  six fields log what the class emits: \<open>published\<close> is \<open>_onDidChange.fire\<close>,
  \<open>publishedFs\<close> is \<open>_onDidChangeFileSystem.fire\<close>, \<open>anyChanged\<close> is the constructor's
  callback \<open>onAnyRepositoryChanged\<close>, \<open>calls\<close> the external delegates, \<open>errorLog\<close> is
  \<open>Logger.error\<close> and \<open>messages\<close> is \<open>Messages.showGenericErrorMessage\<close>. \<open>gates\<close> and
  \<open>nextPromise\<close> belong to the reentrancy gate below. \<open>Logger.debug\<close> changes nothing
  and is left out. The logs hold what the methods themselves do; what the decorators
  \<open>log\<close> and \<open>debug\<close> write, whose code is not among the sources, is not part of them.
\<close>

record Repository =
  clock :: nat
  supportsChangeEvents :: bool
  branch :: "(exn + GitBranch option) option"
  remotes :: "(exn + string list) option"
  remotesDisposable :: "nat option"
  lastFetched :: "nat option"
  updatedAt :: nat
  closed :: bool
  suspended :: bool
  fireChangeDebounced :: "debounced option"
  fireFileSystemChangeDebounced :: "debounced option"
  pendingRepoChange :: "RepositoryChange list option"
  pendingFileSystemChange :: "Uri list option"
  fsInFlight :: "Uri list list"
  published :: "RepositoryChange list list"
  publishedFs :: "Uri list list"
  anyChanged :: "RepositoryChange list list"
  calls :: "call list"
  errorLog :: "exn list"
  messages :: "string list"
  gates :: "string \<rightharpoonup> nat"
  nextPromise :: nat

text \<open>The state the constructor leaves: nothing cached, nothing pending, no timer.\<close>

definition newRepository :: "bool \<Rightarrow> bool \<Rightarrow> bool \<Rightarrow> Repository" where
  "newRepository supports susp cl =
     \<lparr>clock = 0, supportsChangeEvents = supports, branch = None, remotes = None,
      remotesDisposable = None, lastFetched = None, updatedAt = 0, closed = cl,
      suspended = susp, fireChangeDebounced = None, fireFileSystemChangeDebounced = None,
      pendingRepoChange = None, pendingFileSystemChange = None, fsInFlight = [],
      published = [], publishedFs = [], anyChanged = [], calls = [], errorLog = [],
      messages = [], gates = Map.empty, nextPromise = 0\<rparr>"

subsection \<open>Recording and flushing semantic changes\<close>

text \<open>
  The loop of \<open>fireChange\<close>:
  \<^verbatim>\<open>for (const reason of changes) { if (!e.changes.includes(reason)) e.changes.push(reason); }\<close>
\<close>

fun pushChanges :: "RepositoryChange list \<Rightarrow> RepositoryChange list \<Rightarrow> RepositoryChange list" where
  "pushChanges e [] = e"
| "pushChanges e (reason # rest) =
     pushChanges (if reason \<in> set e then e else e @ [reason]) rest"

definition fireChange :: "RepositoryChange list \<Rightarrow> Repository \<Rightarrow> Repository" where
  "fireChange changes r =
     (let r1 = r\<lparr>updatedAt := clock r\<rparr>;
          d = (case fireChangeDebounced r1 of None \<Rightarrow> debounce 250 | Some d' \<Rightarrow> d');
          e0 = (case pendingRepoChange r1 of None \<Rightarrow> [] | Some e' \<Rightarrow> e');
          r2 = r1\<lparr>fireChangeDebounced := Some d,
                  pendingRepoChange := Some (pushChanges e0 changes),
                  anyChanged := anyChanged r1 @ [changes]\<rparr>
      in if suspended r2 then r2
         else r2\<lparr>fireChangeDebounced := Some (invoke (clock r2) d)\<rparr>)"

definition fireChangeCore :: "Repository \<Rightarrow> Repository" where
  "fireChangeCore r =
     (case pendingRepoChange r of
        None \<Rightarrow> r
      | Some e \<Rightarrow> r\<lparr>pendingRepoChange := None, published := published r @ [e]\<rparr>)"

subsection \<open>The classifier\<close>

definition resetRemotesCache :: "Repository \<Rightarrow> Repository" where
  "resetRemotesCache r = r\<lparr>remotes := None, remotesDisposable := None\<rparr>"

definition onRepositoryChanged :: "Uri option \<Rightarrow> Repository \<Rightarrow> Repository" where
  "onRepositoryChanged uri r0 =
     (let r = r0\<lparr>lastFetched := None\<rparr> in
      case uri of
        None \<Rightarrow> fireChange [Unknown] r
      | Some u \<Rightarrow>
          if endsWith (path u) ''.git/config'' then
            fireChange [Config, Remotes] (resetRemotesCache (r\<lparr>branch := None\<rparr>))
          else if endsWith (path u) ''.git/index'' then
            fireChange [Index] r
          else if endsWith (path u) ''.git/HEAD'' \<or> endsWith (path u) ''.git/ORIG_HEAD'' then
            fireChange [Heads] (r\<lparr>branch := None\<rparr>)
          else if endsWith (path u) ''.git/refs/stash'' then
            fireChange [Stash] r
          else if endsWith (path u) ''/.gitignore'' then
            fireChange [Ignores] r
          else
            (case refsRegex_exec (path u) of
               None \<Rightarrow> fireChange [Unknown] r
             | Some g \<Rightarrow>
                 if g = ''heads'' then fireChange [Heads] (r\<lparr>branch := None\<rparr>)
                 else if g = ''remotes'' then
                   fireChange [Remotes] (resetRemotesCache (r\<lparr>branch := None\<rparr>))
                 else if g = ''tags'' then fireChange [Tags] r
                 else fireChange [Unknown] r))"

subsection \<open>Recording and flushing filesystem changes\<close>

definition fireFileSystemChange :: "Uri \<Rightarrow> Repository \<Rightarrow> Repository" where
  "fireFileSystemChange uri r =
     (let r1 = r\<lparr>updatedAt := clock r\<rparr>;
          d = (case fireFileSystemChangeDebounced r1 of
                 None \<Rightarrow> debounce 2500
               | Some d' \<Rightarrow> d');
          e0 = (case pendingFileSystemChange r1 of None \<Rightarrow> [] | Some e' \<Rightarrow> e');
          r2 = r1\<lparr>fireFileSystemChangeDebounced := Some d,
                  pendingFileSystemChange := Some (e0 @ [uri])\<rparr>
      in if suspended r2 then r2
         else r2\<lparr>fireFileSystemChangeDebounced := Some (invoke (clock r2) d)\<rparr>)"

definition onFileSystemChanged :: "Uri \<Rightarrow> Repository \<Rightarrow> Repository" where
  "onFileSystemChanged uri r =
     (if ignoreGitRegex_test (fsPath uri) then r else fireFileSystemChange uri r)"

text \<open>
  Modelled from the spec: \<open>Container.git.excludeIgnoredUris\<close> is not among the sources.
  The spec says of the published event that the ignored paths are filtered out of the
  ordered list of locations; which paths are ignored is the parameter \<open>ignored\<close>.
\<close>

definition excludeIgnoredUris :: "(Uri \<Rightarrow> bool) \<Rightarrow> Uri list \<Rightarrow> Uri list" where
  "excludeIgnoredUris ignored uris = filter (\<lambda>u. \<not> ignored u) uris"

text \<open>
  \<open>fireFileSystemChangeCore\<close> is asynchronous. Its synchronous part swaps the
  accumulator for \<open>undefined\<close> and starts \<open>excludeIgnoredUris\<close>; the rest runs when that
  promise settles, which other notifications may precede. \<open>fireFileSystemChangeCore\<close> is
  the part before the \<open>await\<close>, \<open>excludeResolved\<close> the part after it for the oldest
  outstanding call, and \<open>excludeRejected\<close> a rejection, which ends the function.
\<close>

definition fireFileSystemChangeCore :: "Repository \<Rightarrow> Repository" where
  "fireFileSystemChangeCore r =
     (case pendingFileSystemChange r of
        None \<Rightarrow> r
      | Some e \<Rightarrow> r\<lparr>pendingFileSystemChange := None, fsInFlight := fsInFlight r @ [e]\<rparr>)"

definition excludeResolved :: "(Uri \<Rightarrow> bool) \<Rightarrow> Repository \<Rightarrow> Repository" where
  "excludeResolved ignored r =
     (case fsInFlight r of
        [] \<Rightarrow> r
      | e # rest \<Rightarrow>
          (let uris = excludeIgnoredUris ignored e;
               r1 = r\<lparr>fsInFlight := rest\<rparr>
           in if length uris = 0 then r1
              else r1\<lparr>publishedFs :=
                       publishedFs r1 @ [if length uris \<noteq> length e then uris else e]\<rparr>))"

definition excludeRejected :: "Repository \<Rightarrow> Repository" where
  "excludeRejected r = r\<lparr>fsInFlight := tl (fsInFlight r)\<rparr>"

subsection \<open>Suspend and resume\<close>

definition suspend :: "Repository \<Rightarrow> Repository" where
  "suspend r = r\<lparr>suspended := True\<rparr>"

text \<open>
  \<open>this._fireChangeDebounced!()\<close>: the call of the debounced function, a
  \<open>TypeError\<close> when the field is still \<open>undefined\<close>.
\<close>

definition callFireChangeDebounced :: "Repository \<Rightarrow> exn + Repository" where
  "callFireChangeDebounced r =
     (case fireChangeDebounced r of
        None \<Rightarrow> Inl TypeError
      | Some d \<Rightarrow> Inr (r\<lparr>fireChangeDebounced := Some (invoke (clock r) d)\<rparr>))"

definition callFireFileSystemChangeDebounced :: "Repository \<Rightarrow> exn + Repository" where
  "callFireFileSystemChangeDebounced r =
     (case fireFileSystemChangeDebounced r of
        None \<Rightarrow> Inl TypeError
      | Some d \<Rightarrow> Inr (r\<lparr>fireFileSystemChangeDebounced := Some (invoke (clock r) d)\<rparr>))"

definition resume :: "Repository \<Rightarrow> exn + Repository" where
  "resume r =
     (if \<not> suspended r then Inr r
      else
        (let r1 = r\<lparr>suspended := False\<rparr> in
         case (if pendingRepoChange r1 \<noteq> None then callFireChangeDebounced r1 else Inr r1) of
           Inl ex \<Rightarrow> Inl ex
         | Inr r2 \<Rightarrow>
             if pendingFileSystemChange r2 \<noteq> None then callFireFileSystemChangeDebounced r2
             else Inr r2))"

subsection \<open>Time and the event loop\<close>

text \<open>
  Modelled from the spec, with \<open>debounce\<close> above: when the time a debounced function is
  due has come, its timer is disarmed and the wrapped function runs. \<open>tick\<close> lets one
  time unit pass.
\<close>

definition expireChange :: "Repository \<Rightarrow> Repository" where
  "expireChange r =
     (case fireChangeDebounced r of
        None \<Rightarrow> r
      | Some d \<Rightarrow>
          (case due d of
             None \<Rightarrow> r
           | Some t \<Rightarrow>
               if t \<le> clock r
               then fireChangeCore (r\<lparr>fireChangeDebounced := Some (d\<lparr>due := None\<rparr>)\<rparr>)
               else r))"

definition expireFileSystemChange :: "Repository \<Rightarrow> Repository" where
  "expireFileSystemChange r =
     (case fireFileSystemChangeDebounced r of
        None \<Rightarrow> r
      | Some d \<Rightarrow>
          (case due d of
             None \<Rightarrow> r
           | Some t \<Rightarrow>
               if t \<le> clock r
               then fireFileSystemChangeCore
                      (r\<lparr>fireFileSystemChangeDebounced := Some (d\<lparr>due := None\<rparr>)\<rparr>)
               else r))"

definition tick :: "Repository \<Rightarrow> Repository" where
  "tick r = expireFileSystemChange (expireChange (r\<lparr>clock := clock r + 1\<rparr>))"

text \<open>
  What can happen to a repository between two turns of the event loop: a notification
  of one of the two watchers, a call of \<open>fireChange\<close> by any other method, \<open>suspend\<close>,
  \<open>resume\<close>, the passing of one time unit, and the settling of the oldest outstanding
  \<open>excludeIgnoredUris\<close>.
\<close>

datatype action =
  RepositoryChanged "Uri option"
| FileSystemChanged Uri
| FireChange "RepositoryChange list"
| Suspend
| Resume
| Tick
| ExcludeResolved
| ExcludeRejected

fun step :: "(Uri \<Rightarrow> bool) \<Rightarrow> action \<Rightarrow> Repository \<Rightarrow> exn + Repository" where
  "step ignored (RepositoryChanged uri) r = Inr (onRepositoryChanged uri r)"
| "step ignored (FileSystemChanged uri) r = Inr (onFileSystemChanged uri r)"
| "step ignored (FireChange changes) r = Inr (fireChange changes r)"
| "step ignored Suspend r = Inr (suspend r)"
| "step ignored Resume r = resume r"
| "step ignored Tick r = Inr (tick r)"
| "step ignored ExcludeResolved r = Inr (excludeResolved ignored r)"
| "step ignored ExcludeRejected r = Inr (excludeRejected r)"

fun run :: "(Uri \<Rightarrow> bool) \<Rightarrow> action list \<Rightarrow> Repository \<Rightarrow> exn + Repository" where
  "run ignored [] r = Inr r"
| "run ignored (a # as) r =
     (case step ignored a r of
        Inl ex \<Rightarrow> Inl ex
      | Inr r' \<Rightarrow> run ignored as r')"

subsection \<open>Delegated operations\<close>

text \<open>
  The outcomes of the external collaborators during one operation: for a promise of
  \<open>void\<close>, \<open>None\<close> when it resolves and \<open>Some ex\<close> when it rejects with \<open>ex\<close>; otherwise
  \<open>Inl ex\<close> for the rejection and \<open>Inr v\<close> for the result. \<open>builtInGitRepository\<close> is
  \<open>Inr False\<close> when \<open>GitService.getBuiltInGitRepository\<close> resolves to \<open>undefined\<close>.
  \<open>fetchOnPull\<close> is the setting \<open>git.fetchOnPull\<close>.
\<close>

record env =
  gitFetch :: "exn option"
  gitCheckout :: "exn option"
  gitGetBranch :: "exn + GitBranch option"
  gitGetBranches :: "exn + GitBranch list"
  gitStashApply :: "exn option"
  gitStashDelete :: "exn option"
  gitStashSave :: "exn option"
  builtInGitRepository :: "exn + bool"
  repoPush :: "exn option"
  executeCommand :: "string \<Rightarrow> exn option"
  fetchOnPull :: bool

record pushOptions =
  force :: bool
  reference :: "GitReference option"
  publish :: "string option"

definition logCall :: "call \<Rightarrow> Repository \<Rightarrow> Repository" where
  "logCall c r = r\<lparr>calls := calls r @ [c]\<rparr>"

text \<open>
  The \<open>catch\<close> block the four operations share:
  \<^verbatim>\<open>Logger.error(ex); void Messages.showGenericErrorMessage(msg);\<close>
\<close>

definition catchBlock :: "string \<Rightarrow> exn \<Rightarrow> Repository \<Rightarrow> Repository" where
  "catchBlock msg ex r = r\<lparr>errorLog := errorLog r @ [ex], messages := messages r @ [msg]\<rparr>"

text \<open>
  An asynchronous method returns the outcome of its promise (\<open>Inl ex\<close> rejected,
  \<open>Inr v\<close> resolved) and the state it leaves. Inside a \<open>try\<close> block the outcome is
  \<open>Inl ex\<close> for a throw, \<open>Inr False\<close> for \<open>return;\<close> and \<open>Inr True\<close> for reaching the
  end of the branch. \<open>awaitCall\<close> is \<open>await\<close> of a delegate that returns nothing.
\<close>

definition awaitCall :: "call \<Rightarrow> exn option \<Rightarrow> Repository \<Rightarrow> (exn + bool) \<times> Repository" where
  "awaitCall c outcome r =
     (case outcome of
        Some ex \<Rightarrow> (Inl ex, logCall c r)
      | None \<Rightarrow> (Inr True, logCall c r))"

text \<open>
  \<open>getBranch(name?)\<close>: with a non-empty name the first branch of that name, otherwise
  the cached promise of the current branch, refreshed when there is none or when the
  repository gets no change events.
\<close>

definition getBranch ::
    "string option \<Rightarrow> env \<Rightarrow> Repository \<Rightarrow> (exn + GitBranch option) \<times> Repository" where
  "getBranch nm env r =
     (if nm \<noteq> None \<and> nm \<noteq> Some [] then
        (case gitGetBranches env of
           Inl ex \<Rightarrow> (Inl ex, logCall (GitGetBranches (case nm of Some n \<Rightarrow> n | None \<Rightarrow> [])) r)
         | Inr bs \<Rightarrow>
             (Inr (case filter (\<lambda>b. Some (name b) = nm) bs of [] \<Rightarrow> None | b # _ \<Rightarrow> Some b),
              logCall (GitGetBranches (case nm of Some n \<Rightarrow> n | None \<Rightarrow> [])) r))
      else if branch r = None \<or> \<not> supportsChangeEvents r then
        (gitGetBranch env, (logCall GitGetBranch r)\<lparr>branch := Some (gitGetBranch env)\<rparr>)
      else
        (case branch r of
           Some p \<Rightarrow> (p, r)
         | None \<Rightarrow> (gitGetBranch env, r)))"

definition hasTrackingBranch :: "env \<Rightarrow> Repository \<Rightarrow> (exn + bool) \<times> Repository" where
  "hasTrackingBranch env r =
     (case getBranch None env r of
        (Inl ex, r1) \<Rightarrow> (Inl ex, r1)
      | (Inr None, r1) \<Rightarrow> (Inr False, r1)
      | (Inr (Some b), r1) \<Rightarrow> (Inr (tracking b \<noteq> None), r1))"

text \<open>
  \<open>fetchCore\<close>, split at its \<open>await\<close>: \<open>fetchCoreBegin\<close> calls \<open>Container.git.fetch\<close>,
  \<open>fetchCoreSettled\<close> runs when that promise has settled.
\<close>

definition fetchCoreBegin :: "Repository \<Rightarrow> Repository" where
  "fetchCoreBegin r = logCall GitFetch r"

definition fetchCoreSettled :: "exn option \<Rightarrow> Repository \<Rightarrow> Repository" where
  "fetchCoreSettled outcome r =
     (case outcome of
        None \<Rightarrow> fireChange [Unknown] r
      | Some ex \<Rightarrow> catchBlock ''Unable to fetch repository'' ex r)"

definition fetchCore :: "env \<Rightarrow> Repository \<Rightarrow> (exn + unit) \<times> Repository" where
  "fetchCore env r = (Inr (), fetchCoreSettled (gitFetch env) (fetchCoreBegin r))"

definition pullCoreTry :: "bool \<Rightarrow> env \<Rightarrow> Repository \<Rightarrow> (exn + bool) \<times> Repository" where
  "pullCoreTry rebase env r =
     (case hasTrackingBranch env r of
        (Inl ex, r1) \<Rightarrow> (Inl ex, r1)
      | (Inr tr, r1) \<Rightarrow>
          if tr then
            awaitCall (ExecuteCommand (if rebase then ''git.pullRebase'' else ''git.pull''))
              (executeCommand env (if rebase then ''git.pullRebase'' else ''git.pull'')) r1
          else if fetchOnPull env then awaitCall GitFetch (gitFetch env) r1
          else (Inr True, r1))"

definition pullCore :: "bool \<Rightarrow> env \<Rightarrow> Repository \<Rightarrow> (exn + unit) \<times> Repository" where
  "pullCore rebase env r =
     (case pullCoreTry rebase env r of
        (Inl ex, r1) \<Rightarrow> (Inr (), catchBlock ''Unable to pull repository'' ex r1)
      | (Inr fin, r1) \<Rightarrow> (Inr (), fireChange [Unknown] r1))"

text \<open>
  \<open>pushCore\<close>. The three branches of the source are \<open>GitReference.isBranch\<close> of the
  reference (its \<open>refType\<close> is \<open>branch\<close>), any other reference, and no reference.
\<close>

definition pushCoreTry :: "pushOptions \<Rightarrow> env \<Rightarrow> Repository \<Rightarrow> (exn + bool) \<times> Repository" where
  "pushCoreTry options env r =
     (case reference options of
        Some rf \<Rightarrow>
          if refType rf = RBranch then
            (case builtInGitRepository env of
               Inl ex \<Rightarrow> (Inl ex, logCall GetBuiltInGitRepository r)
             | Inr False \<Rightarrow> (Inr False, logCall GetBuiltInGitRepository r)
             | Inr True \<Rightarrow>
                 (case publish options of
                    Some remote \<Rightarrow>
                      awaitCall RepoPush (repoPush env) (logCall GetBuiltInGitRepository r)
                  | None \<Rightarrow>
                      (case getBranch (Some (refName rf)) env (logCall GetBuiltInGitRepository r) of
                         (Inl ex, r2) \<Rightarrow> (Inl ex, r2)
                       | (Inr None, r2) \<Rightarrow> (Inr False, r2)
                       | (Inr (Some b), r2) \<Rightarrow>
                           (case getBranch None env r2 of
                              (Inl ex, r3) \<Rightarrow> (Inl ex, r3)
                            | (Inr cur, r3) \<Rightarrow>
                                if Some (branchId b) = map_option branchId cur then
                                  awaitCall
                                    (ExecuteCommand (if force options then ''git.pushForce'' else ''git.push''))
                                    (executeCommand env (if force options then ''git.pushForce'' else ''git.push''))
                                    r3
                                else awaitCall RepoPush (repoPush env) r3))))
          else
            (case builtInGitRepository env of
               Inl ex \<Rightarrow> (Inl ex, logCall GetBuiltInGitRepository r)
             | Inr False \<Rightarrow> (Inr False, logCall GetBuiltInGitRepository r)
             | Inr True \<Rightarrow>
                 (case getBranch None env (logCall GetBuiltInGitRepository r) of
                    (Inl ex, r2) \<Rightarrow> (Inl ex, r2)
                  | (Inr None, r2) \<Rightarrow> (Inr False, r2)
                  | (Inr (Some b), r2) \<Rightarrow> awaitCall RepoPush (repoPush env) r2))
      | None \<Rightarrow>
          awaitCall (ExecuteCommand (if force options then ''git.pushForce'' else ''git.push''))
            (executeCommand env (if force options then ''git.pushForce'' else ''git.push'')) r)"

definition pushCore :: "pushOptions \<Rightarrow> env \<Rightarrow> Repository \<Rightarrow> (exn + unit) \<times> Repository" where
  "pushCore options env r =
     (case pushCoreTry options env r of
        (Inl ex, r1) \<Rightarrow> (Inr (), catchBlock ''Unable to push repository'' ex r1)
      | (Inr False, r1) \<Rightarrow> (Inr (), r1)
      | (Inr True, r1) \<Rightarrow> (Inr (), fireChange [Unknown] r1))"

definition switchCore :: "string \<Rightarrow> env \<Rightarrow> Repository \<Rightarrow> (exn + unit) \<times> Repository" where
  "switchCore rf env r =
     (case gitCheckout env of
        None \<Rightarrow> (Inr (), fireChange [Unknown] (logCall (GitCheckout rf) r))
      | Some ex \<Rightarrow>
          (Inr (), catchBlock ''Unable to switch to reference'' ex (logCall (GitCheckout rf) r)))"

text \<open>
  \<open>window.withProgress\<close> runs the task it is given and returns its promise. The public
  methods choose between the bare core and the core under a progress indicator;
  \<open>pull\<close> without progress drops its options.
\<close>

definition withProgress :: "(Repository \<Rightarrow> (exn + unit) \<times> Repository) \<Rightarrow> Repository \<Rightarrow> (exn + unit) \<times> Repository" where
  "withProgress task r = task r"

definition fetch :: "bool \<Rightarrow> env \<Rightarrow> Repository \<Rightarrow> (exn + unit) \<times> Repository" where
  "fetch progress env r =
     (if \<not> progress then fetchCore env r else withProgress (fetchCore env) r)"

definition pull :: "bool \<Rightarrow> bool \<Rightarrow> env \<Rightarrow> Repository \<Rightarrow> (exn + unit) \<times> Repository" where
  "pull progress rebase env r =
     (if \<not> progress then pullCore False env r else withProgress (pullCore rebase env) r)"

definition push :: "bool \<Rightarrow> pushOptions \<Rightarrow> env \<Rightarrow> Repository \<Rightarrow> (exn + unit) \<times> Repository" where
  "push progress options env r =
     (if \<not> progress then pushCore options env r else withProgress (pushCore options env) r)"

definition switch :: "bool \<Rightarrow> string \<Rightarrow> env \<Rightarrow> Repository \<Rightarrow> (exn + unit) \<times> Repository" where
  "switch progress rf env r =
     (if \<not> progress then switchCore rf env r else withProgress (switchCore rf env) r)"

text \<open>The stash operations await their delegate outside any \<open>try\<close>.\<close>

definition stashApply :: "string \<Rightarrow> env \<Rightarrow> Repository \<Rightarrow> (exn + unit) \<times> Repository" where
  "stashApply stashName env r =
     (case gitStashApply env of
        Some ex \<Rightarrow> (Inl ex, logCall (GitStashApply stashName) r)
      | None \<Rightarrow>
          (Inr (),
           if \<not> supportsChangeEvents r
           then fireChange [Stash] (logCall (GitStashApply stashName) r)
           else logCall (GitStashApply stashName) r))"

definition stashDelete :: "string \<Rightarrow> env \<Rightarrow> Repository \<Rightarrow> (exn + unit) \<times> Repository" where
  "stashDelete stashName env r =
     (case gitStashDelete env of
        Some ex \<Rightarrow> (Inl ex, logCall (GitStashDelete stashName) r)
      | None \<Rightarrow>
          (Inr (),
           if \<not> supportsChangeEvents r
           then fireChange [Stash] (logCall (GitStashDelete stashName) r)
           else logCall (GitStashDelete stashName) r))"

definition stashSave :: "env \<Rightarrow> Repository \<Rightarrow> (exn + unit) \<times> Repository" where
  "stashSave env r =
     (case gitStashSave env of
        Some ex \<Rightarrow> (Inl ex, logCall GitStashSave r)
      | None \<Rightarrow>
          (Inr (),
           if \<not> supportsChangeEvents r
           then fireChange [Stash] (logCall GitStashSave r)
           else logCall GitStashSave r))"

subsection \<open>The reentrancy gate\<close>

text \<open>
  Modelled from the spec: the decorator \<open>gate\<close> (\<open>system/decorators\<close>) is not among the
  sources. The spec describes it as a mapping from a derived key to the pending result
  of the invocation in flight, consulted before new work starts and cleared when the
  invocation completes: a call that finds its key receives the pending result and
  starts nothing. A pending result is the number of its promise; \<open>begin\<close> is the gated
  method up to its first \<open>await\<close>.
\<close>

definition gate :: "string \<Rightarrow> (Repository \<Rightarrow> Repository) \<Rightarrow> Repository \<Rightarrow> nat \<times> Repository" where
  "gate key begin r =
     (case gates r key of
        Some p \<Rightarrow> (p, r)
      | None \<Rightarrow>
          (nextPromise r,
           (begin r)\<lparr>gates := (gates (begin r))(key \<mapsto> nextPromise r),
                     nextPromise := Suc (nextPromise r)\<rparr>))"

definition gateSettled :: "string \<Rightarrow> Repository \<Rightarrow> Repository" where
  "gateSettled key r = r\<lparr>gates := (gates r)(key := None)\<rparr>"

text \<open>
  The gated \<open>fetch\<close>: a call under the gate, and the settling of the call in flight
  with the outcome of \<open>Container.git.fetch\<close>.
\<close>

definition fetchGated :: "string \<Rightarrow> Repository \<Rightarrow> nat \<times> Repository" where
  "fetchGated key r = gate key fetchCoreBegin r"

definition fetchGatedSettled :: "string \<Rightarrow> exn option \<Rightarrow> Repository \<Rightarrow> Repository" where
  "fetchGatedSettled key outcome r = gateSettled key (fetchCoreSettled outcome r)"

subsection \<open>Notions used to state the properties\<close>

text \<open>A burst of \<open>fireChange\<close> calls, one after the other.\<close>

fun recordAll :: "RepositoryChange list list \<Rightarrow> Repository \<Rightarrow> Repository" where
  "recordAll [] r = r"
| "recordAll (cs # css) r = recordAll css (fireChange cs r)"

definition pendingSet :: "Repository \<Rightarrow> RepositoryChange set" where
  "pendingSet r = (case pendingRepoChange r of None \<Rightarrow> {} | Some e \<Rightarrow> set e)"

definition pendingDistinct :: "Repository \<Rightarrow> bool" where
  "pendingDistinct r = (case pendingRepoChange r of None \<Rightarrow> True | Some e \<Rightarrow> distinct e)"

text \<open>The rules of the classifier that are tried before \<open>refsRegex\<close>.\<close>

definition matchesExactFile :: "string \<Rightarrow> bool" where
  "matchesExactFile p =
     (endsWith p ''.git/config'' \<or> endsWith p ''.git/index'' \<or> endsWith p ''.git/HEAD'' \<or>
      endsWith p ''.git/ORIG_HEAD'' \<or> endsWith p ''.git/refs/stash'' \<or>
      endsWith p ''/.gitignore'')"

text \<open>An environment in which every external collaborator fails with \<open>ex\<close>.\<close>

definition failingEnv :: "exn \<Rightarrow> env" where
  "failingEnv ex =
     \<lparr>gitFetch = Some ex, gitCheckout = Some ex, gitGetBranch = Inl ex,
      gitGetBranches = Inl ex, gitStashApply = Some ex, gitStashDelete = Some ex,
      gitStashSave = Some ex, builtInGitRepository = Inl ex, repoPush = Some ex,
      executeCommand = (\<lambda>c. Some ex), fetchOnPull = True\<rparr>"

text \<open>
  An environment in which the current branch tracks a remote branch, a repository of
  the built-in provider exists, and everything else fails with \<open>ex\<close>.
\<close>

definition trackingEnv :: "exn \<Rightarrow> env" where
  "trackingEnv ex =
     (failingEnv ex)
       \<lparr>gitGetBranch :=
          Inr (Some \<lparr>branchId = ''main'', name = ''main'', tracking = Some ''origin/main''\<rparr>),
        builtInGitRepository := Inr True\<rparr>"

text \<open>
  The time at which each of the two debounce timers is due, if armed, and \<open>n\<close> time
  units passing.
\<close>

definition changeDue :: "Repository \<Rightarrow> nat option" where
  "changeDue r = (case fireChangeDebounced r of None \<Rightarrow> None | Some d \<Rightarrow> due d)"

definition fsDue :: "Repository \<Rightarrow> nat option" where
  "fsDue r = (case fireFileSystemChangeDebounced r of None \<Rightarrow> None | Some d \<Rightarrow> due d)"

fun ticks :: "nat \<Rightarrow> Repository \<Rightarrow> Repository" where
  "ticks 0 r = r"
| "ticks (Suc n) r = ticks n (tick r)"

text \<open>
  What the constructor and every method keep true: a debounced function, once created,
  has the window it was created with, and an accumulator exists only after the
  debounced function that flushes it.
\<close>

definition wellFormed :: "Repository \<Rightarrow> bool" where
  "wellFormed r =
     ((case fireChangeDebounced r of None \<Rightarrow> pendingRepoChange r = None | Some d \<Rightarrow> wait d = 250) \<and>
      (case fireFileSystemChangeDebounced r of
         None \<Rightarrow> pendingFileSystemChange r = None
       | Some d \<Rightarrow> wait d = 2500))"

text \<open>
  No location of a list matches \<open>ignoreGitRegex\<close>; no location that is pending, awaiting
  \<open>excludeIgnoredUris\<close> or published does.
\<close>

definition noGitUris :: "Uri list \<Rightarrow> bool" where
  "noGitUris us = list_all (\<lambda>u. \<not> ignoreGitRegex_test (fsPath u)) us"

definition fsClean :: "Repository \<Rightarrow> bool" where
  "fsClean r =
     ((case pendingFileSystemChange r of None \<Rightarrow> True | Some e \<Rightarrow> noGitUris e) \<and>
      list_all noGitUris (fsInFlight r) \<and> list_all noGitUris (publishedFs r))"

text \<open>Two states with the same error log, user messages and callback log.\<close>

definition sameLogs :: "Repository \<Rightarrow> Repository \<Rightarrow> bool" where
  "sameLogs r r' =
     (errorLog r' = errorLog r \<and> messages r' = messages r \<and> anyChanged r' = anyChanged r)"

text \<open>
  The part of the state that the semantic change channel reads and writes (time, the
  suspend flag, the timer, the accumulator, the published events), and the same for the
  filesystem channel, where the lists awaiting \<open>excludeIgnoredUris\<close> stand for the
  flushes made.
\<close>

definition changeView ::
    "Repository \<Rightarrow> nat \<times> bool \<times> nat option \<times> RepositoryChange list option \<times> RepositoryChange list list" where
  "changeView r = (clock r, suspended r, changeDue r, pendingRepoChange r, published r)"

definition fsView ::
    "Repository \<Rightarrow> nat \<times> bool \<times> nat option \<times> Uri list option \<times> Uri list list \<times> Uri list list" where
  "fsView r =
     (clock r, suspended r, fsDue r, pendingFileSystemChange r, fsInFlight r, publishedFs r)"

text \<open>Two states that differ at most in the caches.\<close>

definition sameChannels :: "Repository \<Rightarrow> Repository \<Rightarrow> bool" where
  "sameChannels r r' =
     (changeView r' = changeView r \<and> fsView r' = fsView r \<and>
      fireChangeDebounced r' = fireChangeDebounced r \<and>
      fireFileSystemChangeDebounced r' = fireFileSystemChangeDebounced r \<and>
      anyChanged r' = anyChanged r)"

text \<open>
  The exception with which a call of an external collaborator rejects in an
  environment, if it does.
\<close>

fun rejection :: "env \<Rightarrow> call \<Rightarrow> exn option" where
  "rejection env GitFetch = gitFetch env"
| "rejection env (GitCheckout rf) = gitCheckout env"
| "rejection env GitGetBranch = (case gitGetBranch env of Inl ex \<Rightarrow> Some ex | Inr b \<Rightarrow> None)"
| "rejection env (GitGetBranches nm) =
     (case gitGetBranches env of Inl ex \<Rightarrow> Some ex | Inr bs \<Rightarrow> None)"
| "rejection env (GitStashApply nm) = gitStashApply env"
| "rejection env (GitStashDelete nm) = gitStashDelete env"
| "rejection env GitStashSave = gitStashSave env"
| "rejection env GetBuiltInGitRepository =
     (case builtInGitRepository env of Inl ex \<Rightarrow> Some ex | Inr b \<Rightarrow> None)"
| "rejection env RepoPush = repoPush env"
| "rejection env (ExecuteCommand c) = executeCommand env c"

text \<open>The calls an operation has added to the log of a state.\<close>

definition newCalls :: "Repository \<Rightarrow> Repository \<Rightarrow> call list" where
  "newCalls r r' = drop (length (calls r)) (calls r')"

text \<open>
  A part of a \<open>try\<close> block passes rejections on: it only adds calls to the log, leaves
  the error log, the messages and the callback log alone, and when one of the calls it
  made rejects, it throws that exception.
\<close>

definition passesOn :: "env \<Rightarrow> Repository \<Rightarrow> (exn + 'a) \<times> Repository \<Rightarrow> bool" where
  "passesOn env r res =
     (sameLogs r (snd res) \<and> calls (snd res) = calls r @ newCalls r (snd res) \<and>
      (\<forall>c\<in>set (newCalls r (snd res)). \<forall>ex. rejection env c = Some ex \<longrightarrow> fst res = Inl ex))"

text \<open>
  A suspension made of \<open>fireChange\<close> calls and passing time: the lists recorded, in
  order, and the time that passes.
\<close>

fun isRecordOrTick :: "action \<Rightarrow> bool" where
  "isRecordOrTick (FireChange cs) = True"
| "isRecordOrTick Tick = True"
| "isRecordOrTick a = False"

fun recordedChanges :: "action list \<Rightarrow> RepositoryChange list list" where
  "recordedChanges [] = []"
| "recordedChanges (FireChange cs # as) = cs # recordedChanges as"
| "recordedChanges (a # as) = recordedChanges as"

fun elapsed :: "action list \<Rightarrow> nat" where
  "elapsed [] = 0"
| "elapsed (Tick # as) = Suc (elapsed as)"
| "elapsed (a # as) = elapsed as"

section \<open>Properties\<close>

subsection \<open>Basic facts about recording\<close>

lemma set_pushChanges: "set (pushChanges e cs) = set e \<union> set cs"
  by (induction cs arbitrary: e) auto

lemma distinct_pushChanges: "distinct e \<Longrightarrow> distinct (pushChanges e cs)"
  by (induction cs arbitrary: e) auto

lemma fireChange_pending:
  "pendingRepoChange (fireChange cs r) =
     Some (pushChanges (case pendingRepoChange r of None \<Rightarrow> [] | Some e \<Rightarrow> e) cs)"
  by (simp add: fireChange_def Let_def)

lemma fireChange_published: "published (fireChange cs r) = published r"
  by (simp add: fireChange_def Let_def)

lemma fireChange_anyChanged: "anyChanged (fireChange cs r) = anyChanged r @ [cs]"
  by (simp add: fireChange_def Let_def)

lemma fireChange_branch: "branch (fireChange cs r) = branch r"
  by (simp add: fireChange_def Let_def)

lemma fireChange_remotes: "remotes (fireChange cs r) = remotes r"
  by (simp add: fireChange_def Let_def)

lemma fireChange_suspended: "suspended (fireChange cs r) = suspended r"
  by (simp add: fireChange_def Let_def)

lemma pendingSet_fireChange: "pendingSet (fireChange cs r) = pendingSet r \<union> set cs"
  by (simp add: pendingSet_def fireChange_pending set_pushChanges split: option.splits)

lemma pendingDistinct_fireChange: "pendingDistinct r \<Longrightarrow> pendingDistinct (fireChange cs r)"
  by (simp add: pendingDistinct_def fireChange_pending distinct_pushChanges split: option.splits)

lemma recordAll_pendingSet:
  "pendingSet (recordAll css r) = pendingSet r \<union> (\<Union>cs\<in>set css. set cs)"
  by (induction css arbitrary: r) (auto simp: pendingSet_fireChange)

lemma recordAll_pendingDistinct: "pendingDistinct r \<Longrightarrow> pendingDistinct (recordAll css r)"
  by (induction css arbitrary: r) (auto simp: pendingDistinct_fireChange)

lemma recordAll_published: "published (recordAll css r) = published r"
  by (induction css arbitrary: r) (auto simp: fireChange_published)

lemma recordAll_pending_Some: "css \<noteq> [] \<Longrightarrow> pendingRepoChange (recordAll css r) \<noteq> None"
proof (induction css arbitrary: r)
  case Nil
  then show ?case by simp
next
  case (Cons cs css)
  show ?case
  proof (cases css)
    case Nil
    then show ?thesis by (simp add: fireChange_pending)
  next
    case (Cons a list)
    then show ?thesis using Cons.IH [of "fireChange cs r"] by simp
  qed
qed

lemmas classify_simps =
  fireChange_anyChanged fireChange_pending set_pushChanges fireChange_branch fireChange_remotes
  pendingSet_def resetRemotesCache_def

text \<open>
  Whatever the notification, the classifier ends in one call of \<open>fireChange\<close> with at
  least one category, on a state whose accumulator and callback log are untouched.
\<close>

lemma onRepositoryChanged_shape:
  assumes "\<And>cs r'. cs \<noteq> [] \<Longrightarrow> pendingRepoChange r' = pendingRepoChange r \<Longrightarrow>
             anyChanged r' = anyChanged r \<Longrightarrow> P (fireChange cs r')"
  shows "P (onRepositoryChanged uri r)"
  unfolding onRepositoryChanged_def Let_def
  by (simp split: option.splits add: assms resetRemotesCache_def)

lemma onRepositoryChanged_notifies:
  "\<exists>cs. cs \<noteq> [] \<and> anyChanged (onRepositoryChanged uri r) = anyChanged r @ [cs] \<and>
         pendingSet (onRepositoryChanged uri r) = pendingSet r \<union> set cs"
proof (rule onRepositoryChanged_shape)
  fix cs :: "RepositoryChange list" and r' :: Repository
  assume "cs \<noteq> []" "pendingRepoChange r' = pendingRepoChange r" "anyChanged r' = anyChanged r"
  then have "cs \<noteq> [] \<and> anyChanged (fireChange cs r') = anyChanged r @ [cs] \<and>
         pendingSet (fireChange cs r') = pendingSet r \<union> set cs"
    by (simp add: classify_simps split: option.splits)
  then show "\<exists>cs'. cs' \<noteq> [] \<and> anyChanged (fireChange cs r') = anyChanged r @ [cs'] \<and>
         pendingSet (fireChange cs r') = pendingSet r \<union> set cs'"
    by blast
qed

subsection \<open>The classifier (C1, C5)\<close>

text \<open>
  C1, as the code has it. A path that ends in none of the exact file names and whose
  leftmost match of \<open>refsRegex\<close> captures \<open>remotes\<close> is classified as the one category
  \<open>Remotes\<close>: the callback receives \<open>[Remotes]\<close>, the accumulator grows by \<open>Remotes\<close>, and
  both the branch cache and the remote-list cache are cleared.
\<close>

theorem remotes_path_classification:
  assumes "\<not> matchesExactFile (path u)" and "refsRegex_exec (path u) = Some ''remotes''"
  shows "anyChanged (onRepositoryChanged (Some u) r) = anyChanged r @ [[Remotes]] \<and>
         pendingSet (onRepositoryChanged (Some u) r) = pendingSet r \<union> {Remotes} \<and>
         branch (onRepositoryChanged (Some u) r) = None \<and>
         remotes (onRepositoryChanged (Some u) r) = None"
  using assms
  by (auto simp: onRepositoryChanged_def Let_def matchesExactFile_def classify_simps
      split: option.splits)

text \<open>
  C1, witness: the path \<open>/repo/.git/refs/remotes/origin/main\<close> on a repository with both
  caches filled.
\<close>

theorem remotes_path_classification_witness:
  "\<not> matchesExactFile ''/repo/.git/refs/remotes/origin/main'' \<and>
   refsRegex_exec ''/repo/.git/refs/remotes/origin/main'' = Some ''remotes'' \<and>
   anyChanged (onRepositoryChanged
       (Some \<lparr>path = ''/repo/.git/refs/remotes/origin/main'',
              fsPath = ''/repo/.git/refs/remotes/origin/main''\<rparr>)
       ((newRepository True False False)\<lparr>branch := Some (Inr None), remotes := Some (Inr [''origin''])\<rparr>))
     = [[Remotes]] \<and>
   branch (onRepositoryChanged
       (Some \<lparr>path = ''/repo/.git/refs/remotes/origin/main'',
              fsPath = ''/repo/.git/refs/remotes/origin/main''\<rparr>)
       ((newRepository True False False)\<lparr>branch := Some (Inr None), remotes := Some (Inr [''origin''])\<rparr>))
     = None \<and>
   remotes (onRepositoryChanged
       (Some \<lparr>path = ''/repo/.git/refs/remotes/origin/main'',
              fsPath = ''/repo/.git/refs/remotes/origin/main''\<rparr>)
       ((newRepository True False False)\<lparr>branch := Some (Inr None), remotes := Some (Inr [''origin''])\<rparr>))
     = None"
proof -
  have h1: "\<not> matchesExactFile ''/repo/.git/refs/remotes/origin/main''"
    by (simp add: matchesExactFile_def endsWith_def)
  have h2: "refsRegex_exec ''/repo/.git/refs/remotes/origin/main'' = Some ''remotes''"
    by (simp add: refsRegex_at_def startsWith_def)
  show ?thesis
    using h1 h2
      remotes_path_classification
        [of "\<lparr>path = ''/repo/.git/refs/remotes/origin/main'',
              fsPath = ''/repo/.git/refs/remotes/origin/main''\<rparr>"
            "(newRepository True False False)\<lparr>branch := Some (Inr None), remotes := Some (Inr [''origin''])\<rparr>"]
    by (simp add: newRepository_def)
qed

text \<open>
  C1, counterexample: for \<open>/repo/.git/refs/remotes/origin/main\<close> the recorded categories
  are \<open>[Remotes]\<close> alone; \<open>Heads\<close> is not among them.
\<close>

theorem remotes_path_counterexample:
  "anyChanged (onRepositoryChanged
       (Some \<lparr>path = ''/repo/.git/refs/remotes/origin/main'',
              fsPath = ''/repo/.git/refs/remotes/origin/main''\<rparr>)
       (newRepository True False False)) = [[Remotes]] \<and>
   pendingRepoChange (onRepositoryChanged
       (Some \<lparr>path = ''/repo/.git/refs/remotes/origin/main'',
              fsPath = ''/repo/.git/refs/remotes/origin/main''\<rparr>)
       (newRepository True False False)) = Some [Remotes] \<and>
   set [Remotes] \<noteq> {Remotes, Heads}"
  by (simp add: onRepositoryChanged_def Let_def endsWith_def refsRegex_at_def startsWith_def
      fireChange_anyChanged fireChange_pending newRepository_def resetRemotesCache_def)

text \<open>
  The rules of the classifier that hold for every path: a path ending in \<open>.git/config\<close>
  records \<open>[Config, Remotes]\<close> and clears the remote-list cache, an absent path records
  \<open>[Unknown]\<close>, a path that matches no rule records \<open>[Unknown]\<close>, and every notification
  records at least one category.
\<close>

lemma classifier_other_rules:
  "(endsWith (path u) ''.git/config'' \<longrightarrow>
      anyChanged (onRepositoryChanged (Some u) r) = anyChanged r @ [[Config, Remotes]] \<and>
      pendingSet (onRepositoryChanged (Some u) r) = pendingSet r \<union> {Config, Remotes} \<and>
      remotes (onRepositoryChanged (Some u) r) = None) \<and>
   (anyChanged (onRepositoryChanged None r) = anyChanged r @ [[Unknown]] \<and>
    pendingSet (onRepositoryChanged None r) = pendingSet r \<union> {Unknown}) \<and>
   (\<not> matchesExactFile (path w) \<and> refsRegex_exec (path w) = None \<longrightarrow>
      anyChanged (onRepositoryChanged (Some w) r) = anyChanged r @ [[Unknown]] \<and>
      pendingSet (onRepositoryChanged (Some w) r) = pendingSet r \<union> {Unknown}) \<and>
   (\<exists>cs. cs \<noteq> [] \<and> anyChanged (onRepositoryChanged uri r) = anyChanged r @ [cs] \<and>
      pendingSet (onRepositoryChanged uri r) = pendingSet r \<union> set cs)"
proof (intro conjI impI)
  assume "endsWith (path u) ''.git/config''"
  then show "anyChanged (onRepositoryChanged (Some u) r) = anyChanged r @ [[Config, Remotes]]"
    and "pendingSet (onRepositoryChanged (Some u) r) = pendingSet r \<union> {Config, Remotes}"
    and "remotes (onRepositoryChanged (Some u) r) = None"
    by (auto simp: onRepositoryChanged_def Let_def classify_simps split: option.splits)
next
  show "anyChanged (onRepositoryChanged None r) = anyChanged r @ [[Unknown]]"
    and "pendingSet (onRepositoryChanged None r) = pendingSet r \<union> {Unknown}"
    by (auto simp: onRepositoryChanged_def Let_def classify_simps split: option.splits)
next
  assume "\<not> matchesExactFile (path w) \<and> refsRegex_exec (path w) = None"
  then show "anyChanged (onRepositoryChanged (Some w) r) = anyChanged r @ [[Unknown]]"
    and "pendingSet (onRepositoryChanged (Some w) r) = pendingSet r \<union> {Unknown}"
    by (auto simp: onRepositoryChanged_def Let_def matchesExactFile_def classify_simps
        split: option.splits)
next
  show "\<exists>cs. cs \<noteq> [] \<and> anyChanged (onRepositoryChanged uri r) = anyChanged r @ [cs] \<and>
      pendingSet (onRepositoryChanged uri r) = pendingSet r \<union> set cs"
    by (rule onRepositoryChanged_notifies)
qed

text \<open>
  C5, at the input where the code departs from it. \<open>/repo/.git/refs/heads/foo.git/config\<close>
  is the ref file of a branch named \<open>foo.git/config\<close>: it lies under \<open>.git/refs/heads\<close> and
  \<open>refsRegex\<close> captures \<open>heads\<close> on it. The first test of the classifier,
  \<open>endsWith('.git/config')\<close>, has no separator before \<open>.git\<close> and takes it for the
  configuration file: the recorded categories are \<open>[Config, Remotes]\<close>, not \<open>[Heads]\<close>. For
  \<open>/repo/.git/refs/heads/main\<close> the same classifier records \<open>[Heads]\<close>.
\<close>

theorem heads_path_failing_input:
  "refsRegex_exec ''/repo/.git/refs/heads/foo.git/config'' = Some ''heads'' \<and>
   anyChanged (onRepositoryChanged
       (Some \<lparr>path = ''/repo/.git/refs/heads/foo.git/config'',
              fsPath = ''/repo/.git/refs/heads/foo.git/config''\<rparr>)
       (newRepository True False False)) = [[Config, Remotes]] \<and>
   pendingRepoChange (onRepositoryChanged
       (Some \<lparr>path = ''/repo/.git/refs/heads/foo.git/config'',
              fsPath = ''/repo/.git/refs/heads/foo.git/config''\<rparr>)
       (newRepository True False False)) = Some [Config, Remotes] \<and>
   set [Config, Remotes] \<noteq> {Heads} \<and>
   anyChanged (onRepositoryChanged
       (Some \<lparr>path = ''/repo/.git/refs/heads/main'', fsPath = ''/repo/.git/refs/heads/main''\<rparr>)
       (newRepository True False False)) = [[Heads]]"
  by (simp add: onRepositoryChanged_def Let_def endsWith_def refsRegex_at_def startsWith_def
      fireChange_anyChanged fireChange_pending newRepository_def resetRemotesCache_def)

subsection \<open>Coalescing and flushing (C4, C7)\<close>

text \<open>
  C4. Let nothing be pending and let the lists \<open>css\<close> of categories be recorded one after
  the other, at least one. The flush that follows publishes one event; its category
  list has no duplicates and is, as a set, the union of everything recorded. Recording
  the same lists in any other order, or any of them repeatedly, flushes the same set.
\<close>

theorem coalesced_flush_is_union:
  assumes "pendingRepoChange r = None" and "css \<noteq> []" and "set css' = set css"
  shows "\<exists>e e'. published (fireChangeCore (recordAll css r)) = published r @ [e]
           \<and> published (fireChangeCore (recordAll css' r)) = published r @ [e']
           \<and> distinct e \<and> set e = (\<Union>cs\<in>set css. set cs) \<and> set e' = set e"
proof -
  have flush: "\<exists>e. published (fireChangeCore (recordAll xs r)) = published r @ [e]
            \<and> distinct e \<and> set e = (\<Union>cs\<in>set xs. set cs)" if "xs \<noteq> []" for xs
  proof -
    from that obtain e where e: "pendingRepoChange (recordAll xs r) = Some e"
      using recordAll_pending_Some by blast
    have "pendingDistinct r"
      using assms(1) by (simp add: pendingDistinct_def)
    then have "pendingDistinct (recordAll xs r)"
      by (rule recordAll_pendingDistinct)
    then have d: "distinct e" using e by (simp add: pendingDistinct_def)
    have "pendingSet r = {}"
      using assms(1) by (simp add: pendingSet_def)
    then have "pendingSet (recordAll xs r) = (\<Union>cs\<in>set xs. set cs)"
      by (simp add: recordAll_pendingSet)
    then have s: "set e = (\<Union>cs\<in>set xs. set cs)" using e by (simp add: pendingSet_def)
    have "published (fireChangeCore (recordAll xs r)) = published r @ [e]"
      using e by (simp add: fireChangeCore_def recordAll_published)
    with d s show ?thesis by blast
  qed
  from assms(2,3) have "css' \<noteq> []" by auto
  from flush[OF assms(2)] flush[OF this] assms(3) show ?thesis by auto
qed

text \<open>
  C4, witness: \<open>[Heads, Tags]\<close>, \<open>[Tags]\<close>, \<open>[Index, Heads]\<close> recorded on a fresh repository,
  and the same lists in another order with one repeated.
\<close>

theorem coalesced_flush_is_union_witness:
  "pendingRepoChange (newRepository True False False) = None \<and>
   [[Heads, Tags], [Tags], [Index, Heads]] \<noteq> [] \<and>
   set [[Index, Heads], [Tags], [Heads, Tags], [Tags]] = set [[Heads, Tags], [Tags], [Index, Heads]] \<and>
   (\<exists>e e'. published (fireChangeCore
                (recordAll [[Heads, Tags], [Tags], [Index, Heads]] (newRepository True False False)))
              = published (newRepository True False False) @ [e]
           \<and> published (fireChangeCore
                (recordAll [[Index, Heads], [Tags], [Heads, Tags], [Tags]] (newRepository True False False)))
              = published (newRepository True False False) @ [e']
           \<and> distinct e \<and> set e = {Heads, Tags, Index} \<and> set e' = set e)"
proof -
  have h1: "pendingRepoChange (newRepository True False False) = None"
    by (simp add: newRepository_def)
  have h2: "[[Heads, Tags], [Tags], [Index, Heads]] \<noteq> []"
    by simp
  have h3: "set [[Index, Heads], [Tags], [Heads, Tags], [Tags]]
              = set [[Heads, Tags], [Tags], [Index, Heads]]"
    by auto
  have u: "(\<Union>cs\<in>set [[Heads, Tags], [Tags], [Index, Heads]]. set cs) = {Heads, Tags, Index}"
    by auto
  show ?thesis
    using h1 h2 h3 coalesced_flush_is_union [OF h1 h2 h3] unfolding u by blast
qed

text \<open>
  C7. With no change pending \<open>fireChangeCore\<close> returns the state as it is, and with no
  filesystem change pending so does \<open>fireFileSystemChangeCore\<close>: nothing is published
  and nothing else changes.
\<close>

theorem flush_empty_noop:
  "(pendingRepoChange r = None \<longrightarrow> fireChangeCore r = r) \<and>
   (pendingFileSystemChange r = None \<longrightarrow> fireFileSystemChangeCore r = r)"
  by (simp add: fireChangeCore_def fireFileSystemChangeCore_def)

text \<open>C7, witness: the repository as the constructor leaves it.\<close>

theorem flush_empty_noop_witness:
  "pendingRepoChange (newRepository True False False) = None \<and>
   pendingFileSystemChange (newRepository True False False) = None \<and>
   fireChangeCore (newRepository True False False) = newRepository True False False \<and>
   fireFileSystemChangeCore (newRepository True False False) = newRepository True False False"
  using flush_empty_noop [of "newRepository True False False"]
  by (simp add: newRepository_def)

subsection \<open>Delegated operations (C8)\<close>

lemma awaitCall_same: "awaitCall c outcome r = (x, r') \<Longrightarrow> sameLogs r r'"
  by (auto simp: awaitCall_def logCall_def sameLogs_def split: option.splits)

lemma getBranch_same: "getBranch nm env r = (x, r') \<Longrightarrow> sameLogs r r'"
  by (auto simp: getBranch_def logCall_def sameLogs_def split: option.splits sum.splits if_splits)

lemma hasTrackingBranch_same: "hasTrackingBranch env r = (x, r') \<Longrightarrow> sameLogs r r'"
  by (auto simp: hasTrackingBranch_def split: prod.splits sum.splits option.splits
      dest: getBranch_same)

lemma sameLogs_trans: "sameLogs r r' \<Longrightarrow> sameLogs r' r'' \<Longrightarrow> sameLogs r r''"
  by (simp add: sameLogs_def)

lemma sameLogs_logCall: "sameLogs r (logCall c r)"
  by (simp add: sameLogs_def logCall_def)

lemma pullCoreTry_same: "pullCoreTry rb env r = (x, r') \<Longrightarrow> sameLogs r r'"
  by (auto simp: pullCoreTry_def split: prod.splits sum.splits if_splits
      dest!: hasTrackingBranch_same awaitCall_same intro: sameLogs_trans)

lemma pushCoreTry_same: "pushCoreTry opts env r = (x, r') \<Longrightarrow> sameLogs r r'"
  unfolding pushCoreTry_def
  by (auto split: option.splits sum.splits bool.splits prod.splits if_splits
      dest!: getBranch_same awaitCall_same simp: sameLogs_def logCall_def)

lemma fireChange_errorLog: "errorLog (fireChange cs r) = errorLog r"
  by (simp add: fireChange_def Let_def)

lemma fireChange_messages: "messages (fireChange cs r) = messages r"
  by (simp add: fireChange_def Let_def)

lemma pullCore_resolves: "fst (pullCore rb env r) = Inr ()"
  by (simp add: pullCore_def split: prod.splits sum.splits)

lemma pushCore_resolves: "fst (pushCore opts env r) = Inr ()"
  by (simp add: pushCore_def split: prod.splits sum.splits bool.splits)

lemma pullCore_caught:
  assumes "fst (pullCoreTry rb env r) = Inl ex"
  shows "errorLog (snd (pullCore rb env r)) = errorLog r @ [ex] \<and>
         messages (snd (pullCore rb env r)) = messages r @ [''Unable to pull repository''] \<and>
         anyChanged (snd (pullCore rb env r)) = anyChanged r"
proof -
  obtain r1 where t: "pullCoreTry rb env r = (Inl ex, r1)"
    using assms by (cases "pullCoreTry rb env r") simp
  then have "sameLogs r r1" by (rule pullCoreTry_same)
  then show ?thesis using t by (simp add: pullCore_def catchBlock_def sameLogs_def)
qed

lemma pushCore_caught:
  assumes "fst (pushCoreTry opts env r) = Inl ex"
  shows "errorLog (snd (pushCore opts env r)) = errorLog r @ [ex] \<and>
         messages (snd (pushCore opts env r)) = messages r @ [''Unable to push repository''] \<and>
         anyChanged (snd (pushCore opts env r)) = anyChanged r"
proof -
  obtain r1 where t: "pushCoreTry opts env r = (Inl ex, r1)"
    using assms by (cases "pushCoreTry opts env r") simp
  then have "sameLogs r r1" by (rule pushCoreTry_same)
  then show ?thesis using t by (simp add: pushCore_def catchBlock_def sameLogs_def)
qed

text \<open>
  How rejections travel through the \<open>try\<close> blocks of \<open>pull\<close> and \<open>push\<close>.
\<close>

lemma passesOn_I:
  assumes "sameLogs r r'" and "calls r' = calls r @ cs"
    and "\<And>c ex. c \<in> set cs \<Longrightarrow> rejection env c = Some ex \<Longrightarrow> x = Inl ex"
  shows "passesOn env r (x, r')"
  using assms by (auto simp: passesOn_def newCalls_def)

lemma passesOn_D:
  assumes "passesOn env r (x, r')"
  shows "sameLogs r r'" and "calls r' = calls r @ newCalls r r'"
    and "\<And>c ex. c \<in> set (newCalls r r') \<Longrightarrow> rejection env c = Some ex \<Longrightarrow> x = Inl ex"
  using assms by (auto simp: passesOn_def)

lemma passesOn_awaitCall:
  "rejection env c = outcome \<Longrightarrow> passesOn env r (awaitCall c outcome r)"
  by (cases outcome)
    (auto simp: awaitCall_def logCall_def passesOn_def newCalls_def sameLogs_def)

lemma passesOn_getBranch: "passesOn env r (getBranch nm env r)"
  by (auto simp: getBranch_def logCall_def passesOn_def newCalls_def sameLogs_def
      split: option.splits sum.splits)

text \<open>A part that resolved, followed by a part that passes rejections on.\<close>

lemma passesOn_then:
  assumes "passesOn env r (Inr v, r1)" and "passesOn env r1 (x, r2)"
  shows "passesOn env r (x, r2)"
proof -
  from passesOn_D [OF assms(1)] have a: "sameLogs r r1" "calls r1 = calls r @ newCalls r r1"
    "\<And>c ex. c \<in> set (newCalls r r1) \<Longrightarrow> rejection env c = Some ex \<Longrightarrow> False"
    by auto
  from passesOn_D [OF assms(2)] have b: "sameLogs r1 r2" "calls r2 = calls r1 @ newCalls r1 r2"
    "\<And>c ex. c \<in> set (newCalls r1 r2) \<Longrightarrow> rejection env c = Some ex \<Longrightarrow> x = Inl ex"
    by auto
  show ?thesis
  proof (rule passesOn_I)
    show "sameLogs r r2" using a(1) b(1) by (simp add: sameLogs_def)
    show "calls r2 = calls r @ (newCalls r r1 @ newCalls r1 r2)" using a(2) b(2) by simp
    fix c ex
    assume "c \<in> set (newCalls r r1 @ newCalls r1 r2)" "rejection env c = Some ex"
    then show "x = Inl ex" using a(3) b(3) by auto
  qed
qed

lemma passesOn_seq:
  assumes "passesOn env r (Inr v, r1)" and "passesOn env r1 res"
  shows "passesOn env r res"
  using passesOn_then [OF assms(1), of "fst res" "snd res"] assms(2) by simp

lemma passesOn_rethrow:
  assumes "passesOn env r (Inl ex :: exn + 'a, r1)"
  shows "passesOn env r (Inl ex :: exn + 'b, r1)"
  using assms by (auto simp: passesOn_def)

lemma passesOn_return:
  assumes "passesOn env r (Inr v, r1)"
  shows "passesOn env r (Inr w, r1)"
  using assms by (auto simp: passesOn_def)

lemma passesOn_logCall_resolved:
  "rejection env c = None \<Longrightarrow> passesOn env r (Inr v, logCall c r)"
  by (auto simp: passesOn_def newCalls_def logCall_def sameLogs_def)

lemma passesOn_logCall_rejected:
  "rejection env c = Some ex \<Longrightarrow> passesOn env r (Inl ex, logCall c r)"
  by (auto simp: passesOn_def newCalls_def logCall_def sameLogs_def)

lemma passesOn_nothing: "passesOn env r (Inr v, r)"
  by (auto simp: passesOn_def newCalls_def sameLogs_def)

lemma passesOn_hasTrackingBranch: "passesOn env r (hasTrackingBranch env r)"
proof -
  obtain x r1 where g: "getBranch None env r = (x, r1)" by (cases "getBranch None env r")
  with passesOn_getBranch [of env r None] have p: "passesOn env r (x, r1)" by simp
  show ?thesis
  proof (cases x)
    case (Inl ex)
    with g p show ?thesis by (simp add: hasTrackingBranch_def passesOn_def)
  next
    case (Inr b)
    with g p show ?thesis
      by (cases b) (auto simp: hasTrackingBranch_def intro: passesOn_return)
  qed
qed

lemma passesOn_pullCoreTry: "passesOn env r (pullCoreTry rb env r)"
proof -
  obtain x r1 where h: "hasTrackingBranch env r = (x, r1)" by (cases "hasTrackingBranch env r")
  with passesOn_hasTrackingBranch [of env r] have p: "passesOn env r (x, r1)" by simp
  show ?thesis
  proof (cases x)
    case (Inl ex)
    with h p show ?thesis by (simp add: pullCoreTry_def passesOn_def)
  next
    case (Inr tr)
    have a: "passesOn env r1 (awaitCall (ExecuteCommand c) (executeCommand env c) r1)" for c
      by (rule passesOn_awaitCall) simp
    have b: "passesOn env r1 (awaitCall GitFetch (gitFetch env) r1)"
      by (rule passesOn_awaitCall) simp
    from Inr h p have q: "passesOn env r (Inr tr, r1)" by simp
    show ?thesis
      using Inr h passesOn_seq [OF q a] passesOn_seq [OF q b] passesOn_return [OF q, of True]
      by (simp add: pullCoreTry_def)
  qed
qed


lemma passesOn_pushCoreTry: "passesOn env r (pushCoreTry opts env r)"
proof -
  let ?r1 = "logCall GetBuiltInGitRepository r"
  have ex: "passesOn env r0 (awaitCall (ExecuteCommand c) (executeCommand env c) r0)" for c r0
    by (rule passesOn_awaitCall) simp
  have rp: "passesOn env r0 (awaitCall RepoPush (repoPush env) r0)" for r0
    by (rule passesOn_awaitCall) simp
  show ?thesis
  proof (cases "reference opts")
    case None
    then show ?thesis using ex [of r] by (simp add: pushCoreTry_def)
  next
    case (Some rf)
    show ?thesis
    proof (cases "builtInGitRepository env")
      case (Inl e)
      then have "passesOn env r (Inl e, ?r1)"
        by (intro passesOn_logCall_rejected) simp
      with Some Inl show ?thesis by (simp add: pushCoreTry_def)
    next
      case (Inr ok)
      then have b: "passesOn env r (Inr ok, ?r1)"
        by (intro passesOn_logCall_resolved) simp
      show ?thesis
      proof (cases ok)
        case False
        with Some Inr b show ?thesis by (simp add: pushCoreTry_def)
      next
        case True
        obtain x2 r2 where g2: "getBranch None env ?r1 = (x2, r2)"
          by (cases "getBranch None env ?r1")
        with passesOn_getBranch [of env ?r1 None] have p2: "passesOn env ?r1 (x2, r2)" by simp
        have other: "passesOn env r
            (case getBranch None env ?r1 of
               (Inl ex, r2) \<Rightarrow> (Inl ex, r2)
             | (Inr None, r2) \<Rightarrow> (Inr False, r2)
             | (Inr (Some b), r2) \<Rightarrow> awaitCall RepoPush (repoPush env) r2)"
        proof (cases x2)
          case (Inl e)
          from passesOn_seq [OF b p2] have "passesOn env r (Inl e :: exn + bool, r2)"
            unfolding Inl by (rule passesOn_rethrow)
          with g2 Inl show ?thesis by simp
        next
          case (Inr cur)
          with passesOn_seq [OF b p2] have q: "passesOn env r (Inr cur, r2)" by simp
          show ?thesis
            using Inr g2 passesOn_return [OF q, of False] passesOn_seq [OF q rp [of r2]]
            by (cases cur) simp_all
        qed
        obtain x3 r3 where g3: "getBranch (Some (refName rf)) env ?r1 = (x3, r3)"
          by (cases "getBranch (Some (refName rf)) env ?r1")
        with passesOn_getBranch [of env ?r1 "Some (refName rf)"]
        have p3: "passesOn env ?r1 (x3, r3)" by simp
        have named: "passesOn env r
            (case getBranch (Some (refName rf)) env ?r1 of
               (Inl ex, r2) \<Rightarrow> (Inl ex, r2)
             | (Inr None, r2) \<Rightarrow> (Inr False, r2)
             | (Inr (Some b), r2) \<Rightarrow>
                 (case getBranch None env r2 of
                    (Inl ex, r3) \<Rightarrow> (Inl ex, r3)
                  | (Inr cur, r3) \<Rightarrow>
                      if Some (branchId b) = map_option branchId cur then
                        awaitCall
                          (ExecuteCommand (if force opts then ''git.pushForce'' else ''git.push''))
                          (executeCommand env (if force opts then ''git.pushForce'' else ''git.push''))
                          r3
                      else awaitCall RepoPush (repoPush env) r3))"
        proof (cases x3)
          case (Inl e)
          from passesOn_seq [OF b p3] have "passesOn env r (Inl e :: exn + bool, r3)"
            unfolding Inl by (rule passesOn_rethrow)
          with g3 Inl show ?thesis by simp
        next
          case (Inr nb)
          with passesOn_seq [OF b p3] have q: "passesOn env r (Inr nb, r3)" by simp
          show ?thesis
          proof (cases nb)
            case None
            with Inr g3 passesOn_return [OF q, of False] show ?thesis by simp
          next
            case (Some br)
            obtain x4 r4 where g4: "getBranch None env r3 = (x4, r4)"
              by (cases "getBranch None env r3")
            with passesOn_getBranch [of env r3 None] have p4: "passesOn env r3 (x4, r4)" by simp
            show ?thesis
            proof (cases x4)
              case (Inl e)
              from passesOn_seq [OF q p4] have "passesOn env r (Inl e :: exn + bool, r4)"
            unfolding Inl by (rule passesOn_rethrow)
              with Some Inr Inl g3 g4 show ?thesis by simp
            next
              case cur: (Inr cur)
              with passesOn_seq [OF q p4] have q4: "passesOn env r (Inr cur, r4)" by simp
              show ?thesis
                using Some Inr cur g3 g4 passesOn_seq [OF q4 rp [of r4]]
                  passesOn_seq [OF q4 ex [of r4]]
                by simp
            qed
          qed
        qed
        show ?thesis
          using Some Inr True other named passesOn_seq [OF b rp [of ?r1]]
          by (cases "publish opts") (simp_all add: pushCoreTry_def)
      qed
    qed
  qed
qed

lemma newCalls_fireChange: "newCalls r (fireChange cs r1) = newCalls r r1"
  by (simp add: newCalls_def fireChange_def Let_def)

lemma newCalls_catchBlock: "newCalls r (catchBlock m ex r1) = newCalls r r1"
  by (simp add: newCalls_def catchBlock_def)

lemma pullCore_contains:
  assumes "c \<in> set (newCalls r (snd (pullCore rb env r)))" and "rejection env c = Some ex"
  shows "errorLog (snd (pullCore rb env r)) = errorLog r @ [ex] \<and>
         messages (snd (pullCore rb env r)) = messages r @ [''Unable to pull repository''] \<and>
         anyChanged (snd (pullCore rb env r)) = anyChanged r"
proof -
  obtain x r1 where t: "pullCoreTry rb env r = (x, r1)" by (cases "pullCoreTry rb env r")
  with passesOn_pullCoreTry [of env r rb] have p: "passesOn env r (x, r1)" by simp
  have "newCalls r (snd (pullCore rb env r)) = newCalls r r1"
    using t by (cases x) (simp_all add: pullCore_def newCalls_fireChange newCalls_catchBlock)
  with assms(1) have "c \<in> set (newCalls r r1)" by simp
  from passesOn_D(3) [OF p this assms(2)] have x: "x = Inl ex" .
  from passesOn_D(1) [OF p] x t show ?thesis
    by (simp add: pullCore_def catchBlock_def sameLogs_def)
qed

lemma pushCore_contains:
  assumes "c \<in> set (newCalls r (snd (pushCore opts env r)))" and "rejection env c = Some ex"
  shows "errorLog (snd (pushCore opts env r)) = errorLog r @ [ex] \<and>
         messages (snd (pushCore opts env r)) = messages r @ [''Unable to push repository''] \<and>
         anyChanged (snd (pushCore opts env r)) = anyChanged r"
proof -
  obtain x r1 where t: "pushCoreTry opts env r = (x, r1)" by (cases "pushCoreTry opts env r")
  with passesOn_pushCoreTry [of env r opts] have p: "passesOn env r (x, r1)" by simp
  have "newCalls r (snd (pushCore opts env r)) = newCalls r r1"
  proof (cases x)
    case (Inl e)
    with t show ?thesis by (simp add: pushCore_def newCalls_catchBlock)
  next
    case (Inr b)
    with t show ?thesis by (cases b) (simp_all add: pushCore_def newCalls_fireChange)
  qed
  with assms(1) have "c \<in> set (newCalls r r1)" by simp
  from passesOn_D(3) [OF p this assms(2)] have x: "x = Inl ex" .
  from passesOn_D(1) [OF p] x t show ?thesis
    by (simp add: pushCore_def catchBlock_def sameLogs_def)
qed

text \<open>
  C8, as the code has it. \<open>fetch\<close>, \<open>pull\<close>, \<open>push\<close> and \<open>switch\<close> always resolve, whatever
  the collaborators do. When \<open>Container.git.fetch\<close> rejects during \<open>fetch\<close>, when
  \<open>Container.git.checkout\<close> rejects during \<open>switch\<close>, and when any call that \<open>pull\<close> or
  \<open>push\<close> makes to a collaborator rejects, the \<open>catch\<close> block of the operation passes
  that exception to \<open>Logger.error\<close>, shows the one message named after the operation and
  records no change. \<open>stashApply\<close>,
  \<open>stashDelete\<close> and \<open>stashSave\<close> await their delegate outside any \<open>try\<close>: when it
  rejects, their promise rejects with the same exception, no message is shown and no
  change is recorded.
\<close>

theorem delegated_failure_is_contained:
  "fst (fetch p env r) = Inr () \<and> fst (pull p rb env r) = Inr () \<and>
   fst (push p opts env r) = Inr () \<and> fst (switch p rf env r) = Inr () \<and>
   (gitFetch env = Some ex \<longrightarrow>
      errorLog (snd (fetch p env r)) = errorLog r @ [ex] \<and>
      messages (snd (fetch p env r)) = messages r @ [''Unable to fetch repository''] \<and>
      anyChanged (snd (fetch p env r)) = anyChanged r) \<and>
   (c \<in> set (newCalls r (snd (pull p rb env r))) \<and> rejection env c = Some ex \<longrightarrow>
      errorLog (snd (pull p rb env r)) = errorLog r @ [ex] \<and>
      messages (snd (pull p rb env r)) = messages r @ [''Unable to pull repository''] \<and>
      anyChanged (snd (pull p rb env r)) = anyChanged r) \<and>
   (c' \<in> set (newCalls r (snd (push p opts env r))) \<and> rejection env c' = Some ex \<longrightarrow>
      errorLog (snd (push p opts env r)) = errorLog r @ [ex] \<and>
      messages (snd (push p opts env r)) = messages r @ [''Unable to push repository''] \<and>
      anyChanged (snd (push p opts env r)) = anyChanged r) \<and>
   (gitCheckout env = Some ex \<longrightarrow>
      errorLog (snd (switch p rf env r)) = errorLog r @ [ex] \<and>
      messages (snd (switch p rf env r)) = messages r @ [''Unable to switch to reference''] \<and>
      anyChanged (snd (switch p rf env r)) = anyChanged r) \<and>
   (gitStashApply env = Some ex \<longrightarrow>
      fst (stashApply nm env r) = Inl ex \<and>
      messages (snd (stashApply nm env r)) = messages r \<and>
      anyChanged (snd (stashApply nm env r)) = anyChanged r) \<and>
   (gitStashDelete env = Some ex \<longrightarrow>
      fst (stashDelete nm env r) = Inl ex \<and>
      messages (snd (stashDelete nm env r)) = messages r \<and>
      anyChanged (snd (stashDelete nm env r)) = anyChanged r) \<and>
   (gitStashSave env = Some ex \<longrightarrow>
      fst (stashSave env r) = Inl ex \<and>
      messages (snd (stashSave env r)) = messages r \<and>
      anyChanged (snd (stashSave env r)) = anyChanged r)"
proof (intro conjI impI)
  show "fst (fetch p env r) = Inr ()"
    by (simp add: fetch_def withProgress_def fetchCore_def)
  show "fst (pull p rb env r) = Inr ()"
    by (simp add: pull_def withProgress_def pullCore_resolves)
  show "fst (push p opts env r) = Inr ()"
    by (simp add: push_def withProgress_def pushCore_resolves)
  show "fst (switch p rf env r) = Inr ()"
    by (simp add: switch_def withProgress_def switchCore_def split: option.splits)
next
  assume "gitFetch env = Some ex"
  then show "errorLog (snd (fetch p env r)) = errorLog r @ [ex]"
    and "messages (snd (fetch p env r)) = messages r @ [''Unable to fetch repository'']"
    and "anyChanged (snd (fetch p env r)) = anyChanged r"
    by (simp_all add: fetch_def withProgress_def fetchCore_def fetchCoreSettled_def
        fetchCoreBegin_def catchBlock_def logCall_def)
next
  assume a: "c \<in> set (newCalls r (snd (pull p rb env r))) \<and> rejection env c = Some ex"
  have e: "pull p rb env r = pullCore (p \<and> rb) env r"
    by (simp add: pull_def withProgress_def)
  from a have "c \<in> set (newCalls r (snd (pullCore (p \<and> rb) env r)))" "rejection env c = Some ex"
    unfolding e by simp_all
  from pullCore_contains [OF this]
  show "errorLog (snd (pull p rb env r)) = errorLog r @ [ex]"
    and "messages (snd (pull p rb env r)) = messages r @ [''Unable to pull repository'']"
    and "anyChanged (snd (pull p rb env r)) = anyChanged r"
    unfolding e by simp_all
next
  assume a: "c' \<in> set (newCalls r (snd (push p opts env r))) \<and> rejection env c' = Some ex"
  have e: "push p opts env r = pushCore opts env r"
    by (simp add: push_def withProgress_def)
  from a have "c' \<in> set (newCalls r (snd (pushCore opts env r)))" "rejection env c' = Some ex"
    unfolding e by simp_all
  from pushCore_contains [OF this]
  show "errorLog (snd (push p opts env r)) = errorLog r @ [ex]"
    and "messages (snd (push p opts env r)) = messages r @ [''Unable to push repository'']"
    and "anyChanged (snd (push p opts env r)) = anyChanged r"
    unfolding e by simp_all
next
  assume "gitCheckout env = Some ex"
  then show "errorLog (snd (switch p rf env r)) = errorLog r @ [ex]"
    and "messages (snd (switch p rf env r)) = messages r @ [''Unable to switch to reference'']"
    and "anyChanged (snd (switch p rf env r)) = anyChanged r"
    by (simp_all add: switch_def withProgress_def switchCore_def catchBlock_def logCall_def)
next
  assume "gitStashApply env = Some ex"
  then show "fst (stashApply nm env r) = Inl ex"
    and "messages (snd (stashApply nm env r)) = messages r"
    and "anyChanged (snd (stashApply nm env r)) = anyChanged r"
    by (simp_all add: stashApply_def logCall_def)
next
  assume "gitStashDelete env = Some ex"
  then show "fst (stashDelete nm env r) = Inl ex"
    and "messages (snd (stashDelete nm env r)) = messages r"
    and "anyChanged (snd (stashDelete nm env r)) = anyChanged r"
    by (simp_all add: stashDelete_def logCall_def)
next
  assume "gitStashSave env = Some ex"
  then show "fst (stashSave env r) = Inl ex"
    and "messages (snd (stashSave env r)) = messages r"
    and "anyChanged (snd (stashSave env r)) = anyChanged r"
    by (simp_all add: stashSave_def logCall_def)
qed

text \<open>
  C8, witness: a fresh repository whose branch tracks a remote one, with every
  collaborator rejecting with \<open>Failure ''offline''\<close>: \<open>pull\<close> fails at the host command
  \<open>git.pull\<close>, \<open>push\<close>, publishing a branch, at the push of the built-in repository.
\<close>

theorem delegated_failure_is_contained_witness:
  "gitFetch (trackingEnv (Failure ''offline'')) = Some (Failure ''offline'') \<and>
   gitCheckout (trackingEnv (Failure ''offline'')) = Some (Failure ''offline'') \<and>
   gitStashApply (trackingEnv (Failure ''offline'')) = Some (Failure ''offline'') \<and>
   gitStashDelete (trackingEnv (Failure ''offline'')) = Some (Failure ''offline'') \<and>
   gitStashSave (trackingEnv (Failure ''offline'')) = Some (Failure ''offline'') \<and>
   ExecuteCommand ''git.pull''
     \<in> set (newCalls (newRepository True False False)
             (snd (pull True False (trackingEnv (Failure ''offline'')) (newRepository True False False)))) \<and>
   rejection (trackingEnv (Failure ''offline'')) (ExecuteCommand ''git.pull'') = Some (Failure ''offline'') \<and>
   RepoPush
     \<in> set (newCalls (newRepository True False False)
             (snd (push True
                    \<lparr>force = False,
                     reference = Some \<lparr>refType = RBranch, refName = ''main'', ref = ''main''\<rparr>,
                     publish = Some ''origin''\<rparr>
                    (trackingEnv (Failure ''offline'')) (newRepository True False False)))) \<and>
   rejection (trackingEnv (Failure ''offline'')) RepoPush = Some (Failure ''offline'') \<and>
   fst (fetch True (trackingEnv (Failure ''offline'')) (newRepository True False False)) = Inr () \<and>
   messages (snd (fetch True (trackingEnv (Failure ''offline'')) (newRepository True False False)))
     = [''Unable to fetch repository''] \<and>
   errorLog (snd (fetch True (trackingEnv (Failure ''offline'')) (newRepository True False False)))
     = [Failure ''offline''] \<and>
   fst (pull True False (trackingEnv (Failure ''offline'')) (newRepository True False False)) = Inr () \<and>
   messages (snd (pull True False (trackingEnv (Failure ''offline'')) (newRepository True False False)))
     = [''Unable to pull repository''] \<and>
   errorLog (snd (pull True False (trackingEnv (Failure ''offline'')) (newRepository True False False)))
     = [Failure ''offline''] \<and>
   messages (snd (push True
                    \<lparr>force = False,
                     reference = Some \<lparr>refType = RBranch, refName = ''main'', ref = ''main''\<rparr>,
                     publish = Some ''origin''\<rparr>
                    (trackingEnv (Failure ''offline'')) (newRepository True False False)))
     = [''Unable to push repository''] \<and>
   messages (snd (switch True ''main'' (trackingEnv (Failure ''offline'')) (newRepository True False False)))
     = [''Unable to switch to reference''] \<and>
   fst (stashApply ''stash-0'' (trackingEnv (Failure ''offline'')) (newRepository True False False))
     = Inl (Failure ''offline'') \<and>
   fst (stashDelete ''stash-0'' (trackingEnv (Failure ''offline'')) (newRepository True False False))
     = Inl (Failure ''offline'') \<and>
   fst (stashSave (trackingEnv (Failure ''offline'')) (newRepository True False False))
     = Inl (Failure ''offline'')"
proof -
  let ?env = "trackingEnv (Failure ''offline'')"
  let ?r = "newRepository True False False"
  let ?opts = "\<lparr>force = False,
                 reference = Some \<lparr>refType = RBranch, refName = ''main'', ref = ''main''\<rparr>,
                 publish = Some ''origin''\<rparr>"
  have h1: "gitFetch ?env = Some (Failure ''offline'')"
    "gitCheckout ?env = Some (Failure ''offline'')"
    "gitStashApply ?env = Some (Failure ''offline'')"
    "gitStashDelete ?env = Some (Failure ''offline'')"
    "gitStashSave ?env = Some (Failure ''offline'')"
    by (simp_all add: trackingEnv_def failingEnv_def)
  have h2: "ExecuteCommand ''git.pull'' \<in> set (newCalls ?r (snd (pull True False ?env ?r)))"
    by (simp add: pull_def withProgress_def pullCore_def pullCoreTry_def hasTrackingBranch_def
        getBranch_def awaitCall_def logCall_def catchBlock_def trackingEnv_def failingEnv_def
        newRepository_def newCalls_def)
  have h3: "rejection ?env (ExecuteCommand ''git.pull'') = Some (Failure ''offline'')"
    by (simp add: trackingEnv_def failingEnv_def)
  have h4: "RepoPush \<in> set (newCalls ?r (snd (push True ?opts ?env ?r)))"
    by (simp add: push_def withProgress_def pushCore_def pushCoreTry_def awaitCall_def
        logCall_def catchBlock_def trackingEnv_def failingEnv_def newRepository_def newCalls_def)
  have h5: "rejection ?env RepoPush = Some (Failure ''offline'')"
    by (simp add: trackingEnv_def failingEnv_def)
  have m: "messages ?r = []" "errorLog ?r = []"
    by (simp_all add: newRepository_def)
  show ?thesis
    using h1 h2 h3 h4 h5
      delegated_failure_is_contained
        [of True ?env ?r False ?opts "''main''" "Failure ''offline''"
            "ExecuteCommand ''git.pull''" RepoPush "''stash-0''"]
    unfolding m append_Nil by blast
qed

text \<open>
  C8, counterexample: \<open>Container.git.stashApply\<close> rejects. The promise of \<open>stashApply\<close>
  rejects with the same exception and no message is shown.
\<close>

theorem stash_failure_counterexample:
  "gitStashApply (failingEnv (Failure ''conflict'')) = Some (Failure ''conflict'') \<and>
   fst (stashApply ''stash-0'' (failingEnv (Failure ''conflict'')) (newRepository True False False))
     = Inl (Failure ''conflict'') \<and>
   messages (snd (stashApply ''stash-0'' (failingEnv (Failure ''conflict''))
       (newRepository True False False))) = []"
  by (simp add: stashApply_def failingEnv_def logCall_def newRepository_def)

subsection \<open>The reentrancy gate (C9)\<close>

text \<open>
  C9. When no \<open>fetch\<close> with the key is in flight, a first call starts the delegate once
  and a second call with the same key, made before the first has settled, receives the
  promise of the first, starts nothing and changes nothing.
\<close>

theorem gated_fetch_runs_once:
  assumes "gates r key = None"
  shows "fst (fetchGated key (snd (fetchGated key r))) = fst (fetchGated key r) \<and>
         snd (fetchGated key (snd (fetchGated key r))) = snd (fetchGated key r) \<and>
         calls (snd (fetchGated key (snd (fetchGated key r)))) = calls r @ [GitFetch]"
  using assms by (simp add: fetchGated_def gate_def fetchCoreBegin_def logCall_def)

text \<open>C9, witness: two calls with the empty key on a fresh repository.\<close>

theorem gated_fetch_runs_once_witness:
  "gates (newRepository True False False) '''' = None \<and>
   fst (fetchGated '''' (snd (fetchGated '''' (newRepository True False False))))
     = fst (fetchGated '''' (newRepository True False False)) \<and>
   calls (snd (fetchGated '''' (snd (fetchGated '''' (newRepository True False False)))))
     = [GitFetch]"
proof -
  have h: "gates (newRepository True False False) '''' = None"
    by (simp add: newRepository_def)
  have c: "calls (newRepository True False False) = []"
    by (simp add: newRepository_def)
  show ?thesis
    using h gated_fetch_runs_once [OF h] unfolding c append_Nil by blast
qed


subsection \<open>Well-formed states and the event loop\<close>

text \<open>
  A path with a component \<open>.git\<close> matches \<open>ignoreGitRegex\<close>; every method keeps a
  well-formed state well-formed, so that \<open>resume\<close> never meets an undefined debounced
  function; and the two channels do not interfere: each step is described by what it
  does to \<open>changeView\<close> and to \<open>fsView\<close>.
\<close>

lemma ignoreGitRegex_test_append: "ignoreGitRegex_test s \<Longrightarrow> ignoreGitRegex_test (pre @ s)"
  by (induction pre) auto

lemma ignoreGitRegex_at_dotgit_sep:
  "isSep c \<Longrightarrow> ignoreGitRegex_at (''.git'' @ c # cs)"
  by (simp add: ignoreGitRegex_at_def startsWith_def isSep_def)

lemma ignoreGitRegex_test_dotgit_sep:
  "isSep c \<Longrightarrow> ignoreGitRegex_test (''.git'' @ c # cs)"
  using ignoreGitRegex_at_dotgit_sep [of c cs] by simp

lemma ignoreGitRegex_test_dotgit: "ignoreGitRegex_test ''.git''"
  by (simp add: ignoreGitRegex_at_def startsWith_def)

lemma components_git:
  "''.git'' \<in> set (components acc p) \<Longrightarrow> ignoreGitRegex_test (acc @ p)"
proof (induction p arbitrary: acc)
  case Nil
  then show ?case using ignoreGitRegex_test_dotgit by simp
next
  case (Cons c cs)
  show ?case
  proof (cases "isSep c")
    case True
    with Cons.prems have "acc = ''.git'' \<or> ''.git'' \<in> set (components [] cs)" by auto
    then show ?thesis
    proof
      assume "acc = ''.git''"
      then show ?thesis using ignoreGitRegex_test_dotgit_sep [OF True, of cs] by simp
    next
      assume "''.git'' \<in> set (components [] cs)"
      then have "ignoreGitRegex_test cs" using Cons.IH [of "[]"] by simp
      then have "ignoreGitRegex_test ((acc @ [c]) @ cs)" by (rule ignoreGitRegex_test_append)
      then show ?thesis by simp
    qed
  next
    case False
    with Cons.prems have "''.git'' \<in> set (components (acc @ [c]) cs)" by simp
    then have "ignoreGitRegex_test ((acc @ [c]) @ cs)" by (rule Cons.IH)
    then show ?thesis by simp
  qed
qed

lemma insideGitDir_ignored: "insideGitDir p \<Longrightarrow> ignoreGitRegex_test p"
  using components_git [of "[]" p] by (simp add: insideGitDir_def)

lemma wellFormed_new: "wellFormed (newRepository a b c)"
  by (simp add: wellFormed_def newRepository_def)

lemma wellFormed_fireChange: "wellFormed r \<Longrightarrow> wellFormed (fireChange cs r)"
  by (simp add: wellFormed_def fireChange_def Let_def debounce_def invoke_def split: option.splits)

lemma wellFormed_cache:
  "wellFormed (r\<lparr>lastFetched := x\<rparr>) = wellFormed r"
  "wellFormed (r\<lparr>branch := y\<rparr>) = wellFormed r"
  "wellFormed (resetRemotesCache r) = wellFormed r"
  by (simp_all add: wellFormed_def resetRemotesCache_def split: option.splits)

lemma wellFormed_onRepositoryChanged: "wellFormed r \<Longrightarrow> wellFormed (onRepositoryChanged uri r)"
  unfolding onRepositoryChanged_def Let_def
  by (simp split: option.splits add: wellFormed_fireChange wellFormed_cache)

lemma wellFormed_fireFileSystemChange: "wellFormed r \<Longrightarrow> wellFormed (fireFileSystemChange u r)"
  by (simp add: wellFormed_def fireFileSystemChange_def Let_def debounce_def invoke_def split: option.splits)

lemma wellFormed_onFileSystemChanged: "wellFormed r \<Longrightarrow> wellFormed (onFileSystemChanged u r)"
  by (simp add: onFileSystemChanged_def wellFormed_fireFileSystemChange)

lemma wellFormed_suspend: "wellFormed r \<Longrightarrow> wellFormed (suspend r)"
  by (simp add: wellFormed_def suspend_def split: option.splits)

lemma wellFormed_fireChangeCore: "wellFormed r \<Longrightarrow> wellFormed (fireChangeCore r)"
  by (simp add: wellFormed_def fireChangeCore_def split: option.splits)

lemma wellFormed_fireFileSystemChangeCore: "wellFormed r \<Longrightarrow> wellFormed (fireFileSystemChangeCore r)"
  by (simp add: wellFormed_def fireFileSystemChangeCore_def split: option.splits)

lemma wellFormed_expireChange: "wellFormed r \<Longrightarrow> wellFormed (expireChange r)"
  by (auto simp: wellFormed_def expireChange_def fireChangeCore_def split: option.splits)

lemma wellFormed_expireFileSystemChange: "wellFormed r \<Longrightarrow> wellFormed (expireFileSystemChange r)"
  by (auto simp: wellFormed_def expireFileSystemChange_def fireFileSystemChangeCore_def
      split: option.splits)

lemma wellFormed_clock: "wellFormed (r\<lparr>clock := t\<rparr>) = wellFormed r"
  by (simp add: wellFormed_def split: option.splits)

lemma wellFormed_tick: "wellFormed r \<Longrightarrow> wellFormed (tick r)"
  by (simp add: tick_def wellFormed_expireFileSystemChange wellFormed_expireChange wellFormed_clock)

lemma wellFormed_excludeResolved: "wellFormed r \<Longrightarrow> wellFormed (excludeResolved ig r)"
  by (auto simp: wellFormed_def excludeResolved_def Let_def split: list.splits option.splits)

lemma wellFormed_excludeRejected: "wellFormed r \<Longrightarrow> wellFormed (excludeRejected r)"
  by (simp add: wellFormed_def excludeRejected_def split: option.splits)

lemma resume_wellFormed:
  "wellFormed r \<Longrightarrow> \<exists>r'. resume r = Inr r' \<and> wellFormed r'"
  by (auto simp: wellFormed_def resume_def Let_def callFireChangeDebounced_def
      callFireFileSystemChangeDebounced_def invoke_def split: option.splits)

lemma step_wellFormed: "wellFormed r \<Longrightarrow> \<exists>r'. step ig a r = Inr r' \<and> wellFormed r'"
  by (cases a)
    (simp_all add: wellFormed_onRepositoryChanged wellFormed_onFileSystemChanged
      wellFormed_fireChange wellFormed_suspend resume_wellFormed wellFormed_tick
      wellFormed_excludeResolved wellFormed_excludeRejected)

lemma run_wellFormed: "wellFormed r \<Longrightarrow> \<exists>r'. run ig as r = Inr r' \<and> wellFormed r'"
proof (induction as arbitrary: r)
  case Nil
  then show ?case by simp
next
  case (Cons a as)
  from step_wellFormed [OF Cons.prems, of ig a]
  obtain r1 where s: "step ig a r = Inr r1" and w: "wellFormed r1" by blast
  from Cons.IH [OF w] s show ?case by simp
qed

lemma run_append:
  "run ig (xs @ ys) r = (case run ig xs r of Inl ex \<Rightarrow> Inl ex | Inr r' \<Rightarrow> run ig ys r')"
  by (induction xs arbitrary: r) (auto split: sum.splits)

lemma run_ticks: "run ig (replicate n Tick) r = Inr (ticks n r)"
  by (induction n arbitrary: r) auto

lemma run_recordAll: "run ig (map FireChange css) r = Inr (recordAll css r)"
  by (induction css arbitrary: r) auto

lemma ticks_add: "ticks (n + m) r = ticks m (ticks n r)"
  by (induction n arbitrary: r) auto

lemma wellFormed_ticks: "wellFormed r \<Longrightarrow> wellFormed (ticks n r)"
  by (induction n arbitrary: r) (auto simp: wellFormed_tick)

lemma wellFormed_recordAll: "wellFormed r \<Longrightarrow> wellFormed (recordAll css r)"
  by (induction css arbitrary: r) (auto simp: wellFormed_fireChange)

lemma changeView_expireFileSystemChange:
  "changeView (expireFileSystemChange r) = changeView r"
  by (simp add: changeView_def changeDue_def expireFileSystemChange_def
      fireFileSystemChangeCore_def split: option.splits)

lemma fsView_expireChange: "fsView (expireChange r) = fsView r"
  by (simp add: fsView_def fsDue_def expireChange_def fireChangeCore_def split: option.splits)

lemma changeView_tick_idle:
  "changeDue r = None \<Longrightarrow>
   changeView (tick r) = (clock r + 1, suspended r, None, pendingRepoChange r, published r)"
  by (auto simp: tick_def changeView_expireFileSystemChange)
     (auto simp: changeView_def changeDue_def expireChange_def split: option.splits)

lemma changeView_tick_wait:
  "changeDue r = Some t \<Longrightarrow> clock r + 1 < t \<Longrightarrow>
   changeView (tick r) = (clock r + 1, suspended r, Some t, pendingRepoChange r, published r)"
  by (auto simp: tick_def changeView_expireFileSystemChange)
     (auto simp: changeView_def changeDue_def expireChange_def split: option.splits)

lemma changeView_tick_fire:
  "changeDue r = Some t \<Longrightarrow> t \<le> clock r + 1 \<Longrightarrow> pendingRepoChange r = Some e \<Longrightarrow>
   changeView (tick r) = (clock r + 1, suspended r, None, None, published r @ [e])"
  by (auto simp: tick_def changeView_expireFileSystemChange)
     (auto simp: changeView_def changeDue_def expireChange_def fireChangeCore_def split: option.splits)

lemma changeView_ticks_idle:
  "changeDue r = None \<Longrightarrow>
   changeView (ticks n r) = (clock r + n, suspended r, None, pendingRepoChange r, published r)"
proof (induction n arbitrary: r)
  case 0
  then show ?case by (simp add: changeView_def)
next
  case (Suc n)
  from changeView_tick_idle [OF Suc.prems]
  have v: "changeView (tick r) = (clock r + 1, suspended r, None, pendingRepoChange r, published r)" .
  then have "changeDue (tick r) = None" by (simp add: changeView_def)
  from Suc.IH [OF this] v show ?case by (simp add: changeView_def)
qed

lemma changeView_ticks_wait:
  "changeDue r = Some t \<Longrightarrow> clock r + n < t \<Longrightarrow>
   changeView (ticks n r) = (clock r + n, suspended r, Some t, pendingRepoChange r, published r)"
proof (induction n arbitrary: r)
  case 0
  then show ?case by (simp add: changeView_def)
next
  case (Suc n)
  from Suc.prems have "clock r + 1 < t" by simp
  from changeView_tick_wait [OF Suc.prems(1) this]
  have v: "changeView (tick r) = (clock r + 1, suspended r, Some t, pendingRepoChange r, published r)" .
  then have d: "changeDue (tick r) = Some t" and c: "clock (tick r) + n < t"
    using Suc.prems(2) by (simp_all add: changeView_def)
  from Suc.IH [OF d c] v show ?case by (simp add: changeView_def)
qed

lemma changeView_ticks_fire:
  assumes "changeDue r = Some (clock r + Suc n)" and "pendingRepoChange r = Some e"
  shows "changeView (ticks (Suc n) r) = (clock r + Suc n, suspended r, None, None, published r @ [e])"
proof -
  have w: "changeView (ticks n r) =
      (clock r + n, suspended r, Some (clock r + Suc n), pendingRepoChange r, published r)"
    using assms(1) by (rule changeView_ticks_wait) simp
  have "ticks (Suc n) r = tick (ticks n r)"
    using ticks_add [of n 1 r] by simp
  moreover have "changeView (tick (ticks n r)) =
      (clock (ticks n r) + 1, suspended (ticks n r), None, None, published (ticks n r) @ [e])"
    using w assms(2) by (intro changeView_tick_fire [where t = "clock r + Suc n"])
      (simp_all add: changeView_def)
  ultimately show ?thesis using w by (simp add: changeView_def)
qed

lemma changeView_fireChange:
  assumes "wellFormed r"
  shows "changeView (fireChange cs r) =
     (clock r, suspended r,
      (if suspended r then changeDue r else Some (clock r + 250)),
      Some (pushChanges (case pendingRepoChange r of None \<Rightarrow> [] | Some e \<Rightarrow> e) cs),
      published r)"
  using assms
  by (auto simp: changeView_def changeDue_def fireChange_def Let_def wellFormed_def debounce_def
      invoke_def split: option.splits)

lemma onRepositoryChanged_channels:
  assumes "\<And>cs r'. cs \<noteq> [] \<Longrightarrow> sameChannels r r' \<Longrightarrow> P (fireChange cs r')"
  shows "P (onRepositoryChanged uri r)"
  unfolding onRepositoryChanged_def Let_def
  by (simp split: option.splits
      add: assms resetRemotesCache_def sameChannels_def changeView_def fsView_def
        changeDue_def fsDue_def)

lemma changeView_fireChange_suspended:
  "suspended r \<Longrightarrow>
   changeView (fireChange cs r) =
     (clock r, True, changeDue r,
      Some (pushChanges (case pendingRepoChange r of None \<Rightarrow> [] | Some e \<Rightarrow> e) cs),
      published r)"
  by (auto simp: changeView_def changeDue_def fireChange_def Let_def debounce_def
      split: option.splits)

lemma changeView_fireFileSystemChange:
  "changeView (fireFileSystemChange u r) = changeView r"
  by (simp add: changeView_def changeDue_def fireFileSystemChange_def Let_def)

lemma changeView_onFileSystemChanged:
  "changeView (onFileSystemChanged u r) = changeView r"
  by (simp add: onFileSystemChanged_def changeView_fireFileSystemChange)

lemma changeView_excludeResolved: "changeView (excludeResolved ig r) = changeView r"
  by (simp add: changeView_def changeDue_def excludeResolved_def Let_def split: list.splits)

lemma changeView_excludeRejected: "changeView (excludeRejected r) = changeView r"
  by (simp add: changeView_def changeDue_def excludeRejected_def)

lemma step_suspended_quiet:
  assumes "suspended r" and "changeDue r = None" and "a \<noteq> Resume"
  shows "\<exists>r'. step ig a r = Inr r' \<and> published r' = published r \<and> suspended r' \<and>
              changeDue r' = None"
proof (cases a)
  case (RepositoryChanged uri)
  have "published (onRepositoryChanged uri r) = published r \<and>
        suspended (onRepositoryChanged uri r) \<and> changeDue (onRepositoryChanged uri r) = None"
  proof (rule onRepositoryChanged_channels)
    fix cs :: "RepositoryChange list" and r' :: Repository
    assume "sameChannels r r'"
    then have s: "suspended r'" and d: "changeDue r' = None" and p: "published r' = published r"
      using assms(1,2) by (simp_all add: sameChannels_def changeView_def)
    from changeView_fireChange_suspended [OF s, of cs] d p
    show "published (fireChange cs r') = published r \<and> suspended (fireChange cs r') \<and>
          changeDue (fireChange cs r') = None"
      by (simp add: changeView_def)
  qed
  with RepositoryChanged show ?thesis by simp
next
  case (FileSystemChanged u)
  with changeView_onFileSystemChanged [of u r] assms show ?thesis
    by (simp add: changeView_def)
next
  case (FireChange cs)
  with changeView_fireChange_suspended [OF assms(1), of cs] assms show ?thesis
    by (simp add: changeView_def)
next
  case Suspend
  with assms show ?thesis by (simp add: suspend_def changeDue_def)
next
  case Resume
  with assms show ?thesis by simp
next
  case Tick
  with changeView_tick_idle [OF assms(2)] assms show ?thesis
    by (simp add: changeView_def)
next
  case ExcludeResolved
  with changeView_excludeResolved [of ig r] assms show ?thesis
    by (simp add: changeView_def)
next
  case ExcludeRejected
  with changeView_excludeRejected [of r] assms show ?thesis
    by (simp add: changeView_def)
qed

subsection \<open>Publishing while suspended (C3)\<close>

text \<open>
  C3, as the code has it. From a state in which the suspend flag is set and the timer
  of the change channel is not armed, no sequence of watcher notifications, \<open>fireChange\<close>
  calls, \<open>suspend\<close> calls, passing time and settling filter calls publishes a change
  event: the sequence runs without error, the published events are those of the start,
  the flag is still set and the timer is still not armed. Only \<open>resume\<close> ends this.
\<close>

theorem suspended_publishes_nothing_new:
  assumes "suspended r" and "changeDue r = None" and "Resume \<notin> set as"
  shows "\<exists>r'. run ig as r = Inr r' \<and> published r' = published r \<and> suspended r' \<and>
              changeDue r' = None"
  using assms
proof (induction as arbitrary: r)
  case Nil
  then show ?case by simp
next
  case (Cons a as)
  from Cons.prems have "a \<noteq> Resume" by auto
  from step_suspended_quiet [OF Cons.prems(1,2) this, of ig]
  obtain r1 where s: "step ig a r = Inr r1" and p: "published r1 = published r"
    and su: "suspended r1" and d: "changeDue r1 = None" by blast
  from Cons.prems have "Resume \<notin> set as" by simp
  from Cons.IH [OF su d this] s p show ?case by simp
qed

text \<open>
  C3, witness: a repository constructed suspended, a recorded change, a watcher
  notification and time passing.
\<close>

theorem suspended_publishes_nothing_new_witness:
  "suspended (newRepository True True False) \<and>
   changeDue (newRepository True True False) = None \<and>
   Resume \<notin> set [FireChange [Heads], Tick, RepositoryChanged None, Suspend, Tick] \<and>
   (\<exists>r'. run (\<lambda>u. False) [FireChange [Heads], Tick, RepositoryChanged None, Suspend, Tick]
            (newRepository True True False) = Inr r' \<and>
         published r' = [] \<and> suspended r' \<and> changeDue r' = None)"
proof -
  have h1: "suspended (newRepository True True False)"
    by (simp add: newRepository_def)
  have h2: "changeDue (newRepository True True False) = None"
    by (simp add: changeDue_def newRepository_def)
  have h3: "Resume \<notin> set [FireChange [Heads], Tick, RepositoryChanged None, Suspend, Tick]"
    by simp
  have p: "published (newRepository True True False) = []"
    by (simp add: newRepository_def)
  show ?thesis
    using h1 h2 h3 suspended_publishes_nothing_new [OF h1 h2 h3, of "\<lambda>u. False"]
    unfolding p by blast
qed

lemma armed_then_suspended:
  "changeView (ticks 250 (suspend (fireChange [Heads] (newRepository True False False))))
     = (250, True, None, None, [[Heads]])"
proof -
  let ?r1 = "suspend (fireChange [Heads] (newRepository True False False))"
  have v: "changeView ?r1 = (0, True, Some 250, Some [Heads], [])"
    by (simp add: changeView_def changeDue_def suspend_def fireChange_def Let_def debounce_def
        invoke_def newRepository_def)
  then have "changeDue ?r1 = Some (clock ?r1 + Suc 249)" "pendingRepoChange ?r1 = Some [Heads]"
    by (simp_all add: changeView_def)
  from changeView_ticks_fire [OF this] v show ?thesis by (simp add: changeView_def)
qed

text \<open>
  C3, counterexample: a change is recorded on a fresh repository, which arms the timer,
  and \<open>suspend\<close> is called at once. After 249 time units nothing is published; at the
  250th the timer expires and the event \<open>[Heads]\<close> is published while the suspend flag is
  set.
\<close>

theorem armed_timer_counterexample:
  "run (\<lambda>u. False) (FireChange [Heads] # Suspend # replicate 250 Tick) (newRepository True False False)
     = Inr (ticks 250 (suspend (fireChange [Heads] (newRepository True False False)))) \<and>
   suspended (ticks 249 (suspend (fireChange [Heads] (newRepository True False False)))) \<and>
   published (ticks 249 (suspend (fireChange [Heads] (newRepository True False False)))) = [] \<and>
   suspended (ticks 250 (suspend (fireChange [Heads] (newRepository True False False)))) \<and>
   published (ticks 250 (suspend (fireChange [Heads] (newRepository True False False)))) = [[Heads]]"
proof -
  let ?r1 = "suspend (fireChange [Heads] (newRepository True False False))"
  have v: "changeView ?r1 = (0, True, Some 250, Some [Heads], [])"
    by (simp add: changeView_def changeDue_def suspend_def fireChange_def Let_def debounce_def
        invoke_def newRepository_def)
  then have "changeDue ?r1 = Some 250" "clock ?r1 + 249 < 250"
    by (simp_all add: changeView_def)
  from changeView_ticks_wait [OF this] v
  have "changeView (ticks 249 ?r1) = (249, True, Some 250, Some [Heads], [])"
    by (simp add: changeView_def)
  with armed_then_suspended show ?thesis
    by (simp add: run_ticks changeView_def)
qed

lemma recordAll_suspended_view:
  "suspended r \<Longrightarrow>
   clock (recordAll css r) = clock r \<and> suspended (recordAll css r) \<and>
   changeDue (recordAll css r) = changeDue r"
proof (induction css arbitrary: r)
  case Nil
  then show ?case by simp
next
  case (Cons cs css)
  from changeView_fireChange_suspended [OF Cons.prems, of cs]
  have v: "clock (fireChange cs r) = clock r" "suspended (fireChange cs r)"
    "changeDue (fireChange cs r) = changeDue r"
    by (simp_all add: changeView_def)
  from Cons.IH [OF v(2)] v show ?case by simp
qed

lemma resume_view:
  assumes "wellFormed r" and "suspended r" and "pendingRepoChange r = Some e"
  shows "\<exists>r'. resume r = Inr r' \<and> wellFormed r' \<and>
           changeView r' = (clock r, False, Some (clock r + 250), Some e, published r)"
proof -
  from resume_wellFormed [OF assms(1)] obtain r' where r: "resume r = Inr r'" and w: "wellFormed r'"
    by blast
  have "changeView r' = (clock r, False, Some (clock r + 250), Some e, published r)"
    using r assms
    by (auto simp: resume_def Let_def callFireChangeDebounced_def
        callFireFileSystemChangeDebounced_def invoke_def wellFormed_def changeView_def
        changeDue_def split: option.splits if_splits)
  with r w show ?thesis by blast
qed

subsection \<open>Resuming (C2)\<close>

lemma elapsed_ticks: "elapsed (replicate n Tick @ as) = n + elapsed as"
  by (induction n) auto

lemma recordedChanges_ticks: "recordedChanges (replicate n Tick @ as) = recordedChanges as"
  by (induction n) auto

lemma pendingSet_pending: "pendingRepoChange r' = pendingRepoChange r \<Longrightarrow> pendingSet r' = pendingSet r"
  by (simp add: pendingSet_def)

lemma pendingDistinct_pending:
  "pendingRepoChange r' = pendingRepoChange r \<Longrightarrow> pendingDistinct r' = pendingDistinct r"
  by (simp add: pendingDistinct_def)

text \<open>
  While suspended with no timer armed, recording and passing time only fill the
  accumulator and advance the clock.
\<close>

lemma suspension_run:
  assumes "wellFormed r" and "suspended r" and "changeDue r = None"
    and "list_all isRecordOrTick as"
  shows "\<exists>r'. run ig as r = Inr r' \<and> wellFormed r' \<and> suspended r' \<and> changeDue r' = None \<and>
           clock r' = clock r + elapsed as \<and> published r' = published r \<and>
           pendingSet r' = pendingSet r \<union> (\<Union>cs\<in>set (recordedChanges as). set cs) \<and>
           (pendingDistinct r \<longrightarrow> pendingDistinct r') \<and>
           (recordedChanges as \<noteq> [] \<or> pendingRepoChange r \<noteq> None \<longrightarrow>
              pendingRepoChange r' \<noteq> None)"
  using assms
proof (induction as arbitrary: r)
  case Nil
  then show ?case by simp
next
  case (Cons a as)
  from Cons.prems(4) have rest: "list_all isRecordOrTick as" and a: "isRecordOrTick a"
    by simp_all
  show ?case
  proof (cases a)
    case (FireChange cs)
    let ?r1 = "fireChange cs r"
    from changeView_fireChange_suspended [OF Cons.prems(2), of cs] Cons.prems(3)
    have v: "clock ?r1 = clock r" "suspended ?r1" "changeDue ?r1 = None"
      "published ?r1 = published r" "pendingRepoChange ?r1 \<noteq> None"
      by (simp_all add: changeView_def)
    have w: "wellFormed ?r1" using Cons.prems(1) by (rule wellFormed_fireChange)
    from Cons.IH [OF w v(2) v(3) rest] obtain r' where
      r': "run ig as ?r1 = Inr r'" "wellFormed r'" "suspended r'" "changeDue r' = None"
        "clock r' = clock ?r1 + elapsed as" "published r' = published ?r1"
        "pendingSet r' = pendingSet ?r1 \<union> (\<Union>cs\<in>set (recordedChanges as). set cs)"
        "pendingDistinct ?r1 \<longrightarrow> pendingDistinct r'"
        "pendingRepoChange r' \<noteq> None"
      using v(5) by blast
    show ?thesis
      using FireChange r' v
      by (intro exI [of _ r'])
        (auto simp: pendingSet_fireChange pendingDistinct_fireChange)
  next
    case Tick
    let ?r1 = "tick r"
    from changeView_tick_idle [OF Cons.prems(3)] Cons.prems(2)
    have v: "clock ?r1 = clock r + 1" "suspended ?r1" "changeDue ?r1 = None"
      "published ?r1 = published r" "pendingRepoChange ?r1 = pendingRepoChange r"
      by (simp_all add: changeView_def)
    have w: "wellFormed ?r1" using Cons.prems(1) by (rule wellFormed_tick)
    from Cons.IH [OF w v(2) v(3) rest] obtain r' where
      r': "run ig as ?r1 = Inr r'" "wellFormed r'" "suspended r'" "changeDue r' = None"
        "clock r' = clock ?r1 + elapsed as" "published r' = published ?r1"
        "pendingSet r' = pendingSet ?r1 \<union> (\<Union>cs\<in>set (recordedChanges as). set cs)"
        "pendingDistinct ?r1 \<longrightarrow> pendingDistinct r'"
        "recordedChanges as \<noteq> [] \<or> pendingRepoChange ?r1 \<noteq> None \<longrightarrow>
              pendingRepoChange r' \<noteq> None"
      by blast
    show ?thesis
      using Tick r' v pendingSet_pending [OF v(5)] pendingDistinct_pending [OF v(5)]
      by (intro exI [of _ r']) auto
  qed (use a in simp_all)
qed

lemma list_all_take: "list_all P xs \<Longrightarrow> list_all P (take n xs)"
  by (auto simp: list_all_iff dest: in_set_takeD)

text \<open>
  C2, as the code has it. Let nothing be pending and the timer not be armed. After
  \<open>suspend\<close>, let changes be recorded and time pass in any order, with at least one
  change recorded. However long the suspension lasts, nothing is published during it.
  \<open>resume\<close> publishes nothing either: it calls the debounced function, which arms the
  timer for 250 time units after the call of \<open>resume\<close>. Nothing is published before
  those have passed; when they have, exactly one event is published, without
  duplicates and holding, as a set, the union of the categories recorded during the
  suspension.
\<close>

theorem resume_defers_to_debounce:
  assumes "wellFormed r" and "pendingRepoChange r = None" and "changeDue r = None"
    and "list_all isRecordOrTick as" and "recordedChanges as \<noteq> []"
  shows "(\<forall>n\<le>length as. \<exists>r'. run ig (Suspend # take n as) r = Inr r' \<and>
                              published r' = published r) \<and>
         (\<exists>r1 r2 e.
            run ig (Suspend # as @ [Resume]) r = Inr r1 \<and>
            published r1 = published r \<and> \<not> suspended r1 \<and>
            clock r1 = clock r + elapsed as \<and>
            changeDue r1 = Some (clock r + elapsed as + 250) \<and>
            (\<forall>n<250. published (ticks n r1) = published r) \<and>
            run ig (replicate 250 Tick) r1 = Inr r2 \<and>
            published r2 = published r @ [e] \<and> distinct e \<and>
            set e = (\<Union>cs\<in>set (recordedChanges as). set cs))"
proof
  let ?s = "suspend r"
  have s0: "suspended ?s" "clock ?s = clock r" "changeDue ?s = None" "published ?s = published r"
    "pendingRepoChange ?s = None"
    using assms(2,3) by (simp_all add: suspend_def changeDue_def)
  have s6: "wellFormed ?s"
    using assms(1) by (rule wellFormed_suspend)
  note s = s0 s6
  show "\<forall>n\<le>length as. \<exists>r'. run ig (Suspend # take n as) r = Inr r' \<and>
                              published r' = published r"
  proof (intro allI impI)
    fix n
    from suspension_run [OF s(6) s(1) s(3) list_all_take [OF assms(4), of n], of ig] s(4)
    show "\<exists>r'. run ig (Suspend # take n as) r = Inr r' \<and> published r' = published r"
      by auto
  qed
  from suspension_run [OF s(6) s(1) s(3) assms(4), of ig] assms(5) obtain q where
    q: "run ig as ?s = Inr q" "wellFormed q" "suspended q" "changeDue q = None"
      "clock q = clock ?s + elapsed as" "published q = published ?s"
      "pendingSet q = pendingSet ?s \<union> (\<Union>cs\<in>set (recordedChanges as). set cs)"
      "pendingDistinct ?s \<longrightarrow> pendingDistinct q" "pendingRepoChange q \<noteq> None"
    by blast
  from q(9) obtain e where e: "pendingRepoChange q = Some e" by auto
  have "pendingDistinct ?s" using s(5) by (simp add: pendingDistinct_def)
  with q(8) e have de: "distinct e" by (simp add: pendingDistinct_def)
  have "pendingSet ?s = {}" using s(5) by (simp add: pendingSet_def)
  with q(7) e have se: "set e = (\<Union>cs\<in>set (recordedChanges as). set cs)"
    by (simp add: pendingSet_def)
  from resume_view [OF q(2) q(3) e] obtain r1
    where r1: "resume q = Inr r1"
      and v1: "changeView r1 =
          (clock r + elapsed as, False, Some (clock r + elapsed as + 250), Some e, published r)"
    using q(5,6) s(2,4) by auto
  have run1: "run ig (Suspend # as @ [Resume]) r = Inr r1"
    using r1 q(1) by (simp add: run_append)
  have d1: "changeDue r1 = Some (clock r1 + Suc 249)" and p1: "pendingRepoChange r1 = Some e"
    using v1 by (simp_all add: changeView_def)
  have before: "published (ticks n r1) = published r" if "n < 250" for n
  proof -
    have "changeDue r1 = Some (clock r + elapsed as + 250)"
      "clock r1 + n < clock r + elapsed as + 250"
      using v1 that by (simp_all add: changeView_def)
    from changeView_ticks_wait [OF this] v1 show ?thesis by (simp add: changeView_def)
  qed
  from changeView_ticks_fire [OF d1 p1] v1
  have after: "published (ticks 250 r1) = published r @ [e]"
    by (simp add: changeView_def)
  show "\<exists>r1 r2 e.
            run ig (Suspend # as @ [Resume]) r = Inr r1 \<and>
            published r1 = published r \<and> \<not> suspended r1 \<and>
            clock r1 = clock r + elapsed as \<and>
            changeDue r1 = Some (clock r + elapsed as + 250) \<and>
            (\<forall>n<250. published (ticks n r1) = published r) \<and>
            run ig (replicate 250 Tick) r1 = Inr r2 \<and>
            published r2 = published r @ [e] \<and> distinct e \<and>
            set e = (\<Union>cs\<in>set (recordedChanges as). set cs)"
    using run1 v1 before after de se
    by (intro exI [of _ r1] exI [of _ "ticks 250 r1"] exI [of _ e])
      (simp add: changeView_def run_ticks)
qed

text \<open>
  C2, witness: on a fresh repository \<open>[Heads]\<close> is recorded, 300 time units pass,
  \<open>[Tags, Heads]\<close> is recorded and 1000 more time units pass before \<open>resume\<close>: the timer
  is then due at 1550.
\<close>

theorem resume_defers_to_debounce_witness:
  "wellFormed (newRepository True False False) \<and>
   pendingRepoChange (newRepository True False False) = None \<and>
   changeDue (newRepository True False False) = None \<and>
   list_all isRecordOrTick
     (FireChange [Heads] # replicate 300 Tick @ FireChange [Tags, Heads] # replicate 1000 Tick) \<and>
   recordedChanges
     (FireChange [Heads] # replicate 300 Tick @ FireChange [Tags, Heads] # replicate 1000 Tick)
     \<noteq> [] \<and>
   (\<exists>r'. run (\<lambda>u. False)
           (Suspend # take 301
              (FireChange [Heads] # replicate 300 Tick @ FireChange [Tags, Heads] # replicate 1000 Tick))
           (newRepository True False False) = Inr r' \<and> published r' = []) \<and>
   (\<exists>r1 r2 e.
      run (\<lambda>u. False)
        (Suspend #
         (FireChange [Heads] # replicate 300 Tick @ FireChange [Tags, Heads] # replicate 1000 Tick)
         @ [Resume])
        (newRepository True False False) = Inr r1 \<and>
      published r1 = [] \<and> \<not> suspended r1 \<and> clock r1 = 1300 \<and> changeDue r1 = Some 1550 \<and>
      run (\<lambda>u. False) (replicate 250 Tick) r1 = Inr r2 \<and>
      published r2 = [e] \<and> distinct e \<and> set e = {Heads, Tags})"
proof -
  let ?as = "FireChange [Heads] # replicate 300 Tick @ FireChange [Tags, Heads] # replicate 1000 Tick"
  have h1: "wellFormed (newRepository True False False)"
    by (rule wellFormed_new)
  have h2: "pendingRepoChange (newRepository True False False) = None"
    by (simp add: newRepository_def)
  have h3: "changeDue (newRepository True False False) = None"
    by (simp add: changeDue_def newRepository_def)
  have h4: "list_all isRecordOrTick ?as"
    by (simp add: list_all_iff)
  have h5: "recordedChanges ?as \<noteq> []"
    by simp
  have p: "published (newRepository True False False) = []"
    "clock (newRepository True False False) = 0"
    by (simp_all add: newRepository_def)
  have el: "elapsed ?as = 1300"
    using elapsed_ticks [of 300 "FireChange [Tags, Heads] # replicate 1000 Tick"]
      elapsed_ticks [of 1000 "[]"] by simp
  have rc: "recordedChanges ?as = [[Heads], [Tags, Heads]]"
    using recordedChanges_ticks [of 300 "FireChange [Tags, Heads] # replicate 1000 Tick"]
      recordedChanges_ticks [of 1000 "[]"] by simp
  have u: "(\<Union>cs\<in>set [[Heads], [Tags, Heads]]. set cs) = {Heads, Tags}"
    by auto
  have len: "(301::nat) \<le> length ?as" by simp
  from resume_defers_to_debounce [OF h1 h2 h3 h4 h5, of "\<lambda>u. False"]
  have a: "\<forall>n\<le>length ?as. \<exists>r'. run (\<lambda>u. False) (Suspend # take n ?as)
              (newRepository True False False) = Inr r' \<and> published r' = []"
    and b: "\<exists>r1 r2 e.
      run (\<lambda>u. False) (Suspend # ?as @ [Resume]) (newRepository True False False) = Inr r1 \<and>
      published r1 = [] \<and> \<not> suspended r1 \<and> clock r1 = 1300 \<and> changeDue r1 = Some 1550 \<and>
      run (\<lambda>u. False) (replicate 250 Tick) r1 = Inr r2 \<and>
      published r2 = [e] \<and> distinct e \<and> set e = {Heads, Tags}"
    unfolding p el rc u by auto
  from a len have "\<exists>r'. run (\<lambda>u. False) (Suspend # take 301 ?as)
              (newRepository True False False) = Inr r' \<and> published r' = []"
    by blast
  with b h1 h2 h3 h4 h5 show ?thesis by blast
qed

text \<open>
  C2, counterexample: \<open>suspend\<close>, one \<open>fireChange\<close> and \<open>resume\<close> on a fresh repository.
  When \<open>resume\<close> returns, no event has been published; the change is still pending and
  the timer is due 250 time units later.
\<close>

theorem resume_counterexample:
  "run (\<lambda>u. False) [Suspend, FireChange [Heads], Resume] (newRepository True False False)
     = Inr ((newRepository True False False)
              \<lparr>fireChangeDebounced := Some \<lparr>wait = 250, due = Some 250\<rparr>,
               pendingRepoChange := Some [Heads], anyChanged := [[Heads]]\<rparr>) \<and>
   published ((newRepository True False False)
              \<lparr>fireChangeDebounced := Some \<lparr>wait = 250, due = Some 250\<rparr>,
               pendingRepoChange := Some [Heads], anyChanged := [[Heads]]\<rparr>) = []"
  by (simp add: suspend_def fireChange_def Let_def resume_def callFireChangeDebounced_def
      debounce_def invoke_def newRepository_def)

lemma fsView_tick_idle:
  "fsDue r = None \<Longrightarrow>
   fsView (tick r) =
     (clock r + 1, suspended r, None, pendingFileSystemChange r, fsInFlight r, publishedFs r)"
  by (auto simp: tick_def fsView_def fsDue_def expireFileSystemChange_def expireChange_def
      fireChangeCore_def split: option.splits)

lemma fsView_tick_wait:
  "fsDue r = Some t \<Longrightarrow> clock r + 1 < t \<Longrightarrow>
   fsView (tick r) =
     (clock r + 1, suspended r, Some t, pendingFileSystemChange r, fsInFlight r, publishedFs r)"
  by (auto simp: tick_def fsView_def fsDue_def expireFileSystemChange_def expireChange_def
      fireChangeCore_def split: option.splits)

lemma fsView_tick_fire:
  "fsDue r = Some t \<Longrightarrow> t \<le> clock r + 1 \<Longrightarrow> pendingFileSystemChange r = Some e \<Longrightarrow>
   fsView (tick r) = (clock r + 1, suspended r, None, None, fsInFlight r @ [e], publishedFs r)"
  by (auto simp: tick_def fsView_def fsDue_def expireFileSystemChange_def expireChange_def
      fireChangeCore_def fireFileSystemChangeCore_def split: option.splits)

lemma fsView_ticks_idle:
  "fsDue r = None \<Longrightarrow>
   fsView (ticks n r) =
     (clock r + n, suspended r, None, pendingFileSystemChange r, fsInFlight r, publishedFs r)"
proof (induction n arbitrary: r)
  case 0
  then show ?case by (simp add: fsView_def)
next
  case (Suc n)
  from fsView_tick_idle [OF Suc.prems]
  have v: "fsView (tick r) =
     (clock r + 1, suspended r, None, pendingFileSystemChange r, fsInFlight r, publishedFs r)" .
  then have "fsDue (tick r) = None" by (simp add: fsView_def)
  from Suc.IH [OF this] v show ?case by (simp add: fsView_def)
qed

lemma fsView_ticks_wait:
  "fsDue r = Some t \<Longrightarrow> clock r + n < t \<Longrightarrow>
   fsView (ticks n r) =
     (clock r + n, suspended r, Some t, pendingFileSystemChange r, fsInFlight r, publishedFs r)"
proof (induction n arbitrary: r)
  case 0
  then show ?case by (simp add: fsView_def)
next
  case (Suc n)
  from Suc.prems have "clock r + 1 < t" by simp
  from fsView_tick_wait [OF Suc.prems(1) this]
  have v: "fsView (tick r) =
     (clock r + 1, suspended r, Some t, pendingFileSystemChange r, fsInFlight r, publishedFs r)" .
  then have d: "fsDue (tick r) = Some t" and c: "clock (tick r) + n < t"
    using Suc.prems(2) by (simp_all add: fsView_def)
  from Suc.IH [OF d c] v show ?case by (simp add: fsView_def)
qed

lemma fsView_ticks_fire:
  assumes "fsDue r = Some (clock r + Suc n)" and "pendingFileSystemChange r = Some e"
  shows "fsView (ticks (Suc n) r) =
     (clock r + Suc n, suspended r, None, None, fsInFlight r @ [e], publishedFs r)"
proof -
  have w: "fsView (ticks n r) =
      (clock r + n, suspended r, Some (clock r + Suc n), pendingFileSystemChange r,
       fsInFlight r, publishedFs r)"
    using assms(1) by (rule fsView_ticks_wait) simp
  have "ticks (Suc n) r = tick (ticks n r)"
    using ticks_add [of n 1 r] by simp
  moreover have "fsView (tick (ticks n r)) =
      (clock (ticks n r) + 1, suspended (ticks n r), None, None, fsInFlight (ticks n r) @ [e],
       publishedFs (ticks n r))"
    using w assms(2) by (intro fsView_tick_fire [where t = "clock r + Suc n"])
      (simp_all add: fsView_def)
  ultimately show ?thesis using w by (simp add: fsView_def)
qed

lemma fsView_fireFileSystemChange:
  assumes "wellFormed r"
  shows "fsView (fireFileSystemChange u r) =
     (clock r, suspended r,
      (if suspended r then fsDue r else Some (clock r + 2500)),
      Some ((case pendingFileSystemChange r of None \<Rightarrow> [] | Some e \<Rightarrow> e) @ [u]),
      fsInFlight r, publishedFs r)"
  using assms
  by (auto simp: fsView_def fsDue_def fireFileSystemChange_def Let_def wellFormed_def
      debounce_def invoke_def split: option.splits)

text \<open>One window after a call that is not suspended, the accumulator is flushed.\<close>

lemma record_then_window:
  assumes "wellFormed r" and "\<not> suspended r"
  shows "changeView (ticks 250 (fireChange cs r)) =
           (clock r + 250, False, None, None,
            published r @ [pushChanges (case pendingRepoChange r of None \<Rightarrow> [] | Some e \<Rightarrow> e) cs])"
    and "\<And>n. n < 250 \<Longrightarrow> published (ticks n (fireChange cs r)) = published r"
proof -
  let ?e = "pushChanges (case pendingRepoChange r of None \<Rightarrow> [] | Some e \<Rightarrow> e) cs"
  have v: "changeView (fireChange cs r) =
      (clock r, False, Some (clock r + 250), Some ?e, published r)"
    using changeView_fireChange [OF assms(1), of cs] assms(2) by simp
  then have d: "changeDue (fireChange cs r) = Some (clock (fireChange cs r) + Suc 249)"
    and p: "pendingRepoChange (fireChange cs r) = Some ?e"
    by (simp_all add: changeView_def)
  from changeView_ticks_fire [OF d p] v
  show "changeView (ticks 250 (fireChange cs r)) =
           (clock r + 250, False, None, None, published r @ [?e])"
    by (simp add: changeView_def)
  fix n :: nat
  assume "n < 250"
  then have "changeDue (fireChange cs r) = Some (clock r + 250)"
    "clock (fireChange cs r) + n < clock r + 250"
    using v by (simp_all add: changeView_def)
  from changeView_ticks_wait [OF this] v
  show "published (ticks n (fireChange cs r)) = published r"
    by (simp add: changeView_def)
qed

lemma fs_record_then_window:
  assumes "wellFormed r" and "\<not> suspended r"
  shows "fsView (ticks 2500 (fireFileSystemChange u r)) =
           (clock r + 2500, False, None, None,
            fsInFlight r @ [(case pendingFileSystemChange r of None \<Rightarrow> [] | Some e \<Rightarrow> e) @ [u]],
            publishedFs r)"
proof -
  let ?e = "(case pendingFileSystemChange r of None \<Rightarrow> [] | Some e \<Rightarrow> e) @ [u]"
  have v: "fsView (fireFileSystemChange u r) =
      (clock r, False, Some (clock r + 2500), Some ?e, fsInFlight r, publishedFs r)"
    using fsView_fireFileSystemChange [OF assms(1), of u] assms(2) by simp
  then have d: "fsDue (fireFileSystemChange u r) =
        Some (clock (fireFileSystemChange u r) + Suc 2499)"
    and p: "pendingFileSystemChange (fireFileSystemChange u r) = Some ?e"
    by (simp_all add: fsView_def)
  from fsView_ticks_fire [OF d p] v show ?thesis
    by (simp add: fsView_def)
qed

lemma two_records_one_window:
  assumes "wellFormed r" and "\<not> suspended r" and "pendingRepoChange r = None" and "d < 250"
  shows "published (ticks 250 (fireChange cs2 (ticks d (fireChange cs1 r))))
           = published r @ [pushChanges (pushChanges [] cs1) cs2]"
    and "\<And>n. n < 250 \<Longrightarrow>
           published (ticks n (fireChange cs2 (ticks d (fireChange cs1 r)))) = published r"
proof -
  let ?r1 = "fireChange cs1 r"
  let ?r2 = "ticks d ?r1"
  have v1: "changeView ?r1 = (clock r, False, Some (clock r + 250), Some (pushChanges [] cs1), published r)"
    using changeView_fireChange [OF assms(1), of cs1] assms(2,3) by simp
  then have "changeDue ?r1 = Some (clock r + 250)" "clock ?r1 + d < clock r + 250"
    using assms(4) by (simp_all add: changeView_def)
  from changeView_ticks_wait [OF this] v1
  have v2: "changeView ?r2 =
      (clock r + d, False, Some (clock r + 250), Some (pushChanges [] cs1), published r)"
    by (simp add: changeView_def)
  have w2: "wellFormed ?r2"
    using assms(1) by (simp add: wellFormed_ticks wellFormed_fireChange)
  have s2: "\<not> suspended ?r2" using v2 by (simp add: changeView_def)
  from record_then_window(1) [OF w2 s2, of cs2] v2
  show "published (ticks 250 (fireChange cs2 ?r2))
           = published r @ [pushChanges (pushChanges [] cs1) cs2]"
    by (simp add: changeView_def)
  fix n :: nat
  assume "n < 250"
  from record_then_window(2) [OF w2 s2 this, of cs2] v2
  show "published (ticks n (fireChange cs2 ?r2)) = published r"
    by (simp add: changeView_def)
qed

lemma two_records_two_windows:
  assumes "wellFormed r" and "\<not> suspended r" and "pendingRepoChange r = None" and "250 < d"
  shows "published (ticks 250 (fireChange cs2 (ticks d (fireChange cs1 r))))
           = published r @ [pushChanges [] cs1, pushChanges [] cs2]"
proof -
  let ?r1 = "fireChange cs1 r"
  let ?r2 = "ticks 250 ?r1"
  let ?r3 = "ticks (d - 250) ?r2"
  have d: "ticks d ?r1 = ?r3"
    using ticks_add [of 250 "d - 250" ?r1] assms(4) by simp
  have v2: "changeView ?r2 =
      (clock r + 250, False, None, None, published r @ [pushChanges [] cs1])"
    using record_then_window(1) [OF assms(1,2), of cs1] assms(3) by simp
  then have "changeDue ?r2 = None" by (simp add: changeView_def)
  from changeView_ticks_idle [OF this, of "d - 250"] v2
  have v3: "changeView ?r3 =
      (clock r + 250 + (d - 250), False, None, None, published r @ [pushChanges [] cs1])"
    by (simp add: changeView_def)
  have w3: "wellFormed ?r3"
    using assms(1) by (simp add: wellFormed_ticks wellFormed_fireChange)
  have s3: "\<not> suspended ?r3" using v3 by (simp add: changeView_def)
  from record_then_window(1) [OF w3 s3, of cs2] v3 show ?thesis
    unfolding d by (simp add: changeView_def)
qed

lemma fsView_fireChange: "fsView (fireChange cs r) = fsView r"
  by (simp add: fsView_def fsDue_def fireChange_def Let_def)

lemma two_fs_one_window:
  assumes "wellFormed r" and "\<not> suspended r" and "pendingFileSystemChange r = None"
    and "k < 2500"
  shows "fsInFlight (ticks 2500 (fireFileSystemChange u2 (ticks k (fireFileSystemChange u1 r))))
           = fsInFlight r @ [[u1, u2]]"
proof -
  let ?r1 = "fireFileSystemChange u1 r"
  let ?r2 = "ticks k ?r1"
  have v1: "fsView ?r1 =
      (clock r, False, Some (clock r + 2500), Some [u1], fsInFlight r, publishedFs r)"
    using fsView_fireFileSystemChange [OF assms(1), of u1] assms(2,3) by simp
  then have "fsDue ?r1 = Some (clock r + 2500)" "clock ?r1 + k < clock r + 2500"
    using assms(4) by (simp_all add: fsView_def)
  from fsView_ticks_wait [OF this] v1
  have v2: "fsView ?r2 =
      (clock r + k, False, Some (clock r + 2500), Some [u1], fsInFlight r, publishedFs r)"
    by (simp add: fsView_def)
  have w2: "wellFormed ?r2"
    using assms(1) by (simp add: wellFormed_ticks wellFormed_fireFileSystemChange)
  have s2: "\<not> suspended ?r2" using v2 by (simp add: fsView_def)
  from fs_record_then_window [OF w2 s2, of u2] v2 show ?thesis
    by (simp add: fsView_def)
qed

lemma two_fs_two_windows:
  assumes "wellFormed r" and "\<not> suspended r" and "pendingFileSystemChange r = None"
    and "2500 < k"
  shows "fsInFlight (ticks 2500 (fireFileSystemChange u2 (ticks k (fireFileSystemChange u1 r))))
           = fsInFlight r @ [[u1], [u2]]"
proof -
  let ?r1 = "fireFileSystemChange u1 r"
  let ?r2 = "ticks 2500 ?r1"
  let ?r3 = "ticks (k - 2500) ?r2"
  have d: "ticks k ?r1 = ?r3"
    using ticks_add [of 2500 "k - 2500" ?r1] assms(4) by simp
  have v2: "fsView ?r2 =
      (clock r + 2500, False, None, None, fsInFlight r @ [[u1]], publishedFs r)"
    using fs_record_then_window [OF assms(1,2), of u1] assms(3) by simp
  then have "fsDue ?r2 = None" by (simp add: fsView_def)
  from fsView_ticks_idle [OF this, of "k - 2500"] v2
  have v3: "fsView ?r3 =
      (clock r + 2500 + (k - 2500), False, None, None, fsInFlight r @ [[u1]], publishedFs r)"
    by (simp add: fsView_def)
  have w3: "wellFormed ?r3"
    using assms(1) by (simp add: wellFormed_ticks wellFormed_fireFileSystemChange)
  have s3: "\<not> suspended ?r3" using v3 by (simp add: fsView_def)
  from fs_record_then_window [OF w3 s3, of u2] v3 show ?thesis
    unfolding d by (simp add: fsView_def)
qed

lemma fs_record_before_window:
  assumes "wellFormed r" and "\<not> suspended r" and "n < 2500"
  shows "fsView (ticks n (fireFileSystemChange u r)) =
           (clock r + n, False, Some (clock r + 2500),
            Some ((case pendingFileSystemChange r of None \<Rightarrow> [] | Some e \<Rightarrow> e) @ [u]),
            fsInFlight r, publishedFs r)"
proof -
  let ?e = "(case pendingFileSystemChange r of None \<Rightarrow> [] | Some e \<Rightarrow> e) @ [u]"
  have v: "fsView (fireFileSystemChange u r) =
      (clock r, False, Some (clock r + 2500), Some ?e, fsInFlight r, publishedFs r)"
    using fsView_fireFileSystemChange [OF assms(1), of u] assms(2) by simp
  then have "fsDue (fireFileSystemChange u r) = Some (clock r + 2500)"
    "clock (fireFileSystemChange u r) + n < clock r + 2500"
    using assms(3) by (simp_all add: fsView_def)
  from fsView_ticks_wait [OF this] v show ?thesis
    by (simp add: fsView_def)
qed

lemma two_fs_before_window:
  assumes "wellFormed r" and "\<not> suspended r" and "pendingFileSystemChange r = None"
    and "k < 2500" and "n < 2500"
  shows "fsView (ticks n (fireFileSystemChange u2 (ticks k (fireFileSystemChange u1 r)))) =
           (clock r + k + n, False, Some (clock r + k + 2500), Some [u1, u2],
            fsInFlight r, publishedFs r)"
proof -
  let ?r2 = "ticks k (fireFileSystemChange u1 r)"
  from fs_record_before_window [OF assms(1,2,4), of u1] assms(3)
  have v2: "fsView ?r2 =
      (clock r + k, False, Some (clock r + 2500), Some [u1], fsInFlight r, publishedFs r)"
    by simp
  have w2: "wellFormed ?r2"
    using assms(1) by (simp add: wellFormed_ticks wellFormed_fireFileSystemChange)
  have s2: "\<not> suspended ?r2" using v2 by (simp add: fsView_def)
  from fs_record_before_window [OF w2 s2 assms(5), of u2] v2 show ?thesis
    by (simp add: fsView_def)
qed

lemma two_fs_one_window_view:
  assumes "wellFormed r" and "\<not> suspended r" and "pendingFileSystemChange r = None"
    and "k < 2500"
  shows "fsView (ticks 2500 (fireFileSystemChange u2 (ticks k (fireFileSystemChange u1 r)))) =
           (clock r + k + 2500, False, None, None, fsInFlight r @ [[u1, u2]], publishedFs r)"
proof -
  let ?r2 = "ticks k (fireFileSystemChange u1 r)"
  from fs_record_before_window [OF assms(1,2,4), of u1] assms(3)
  have v2: "fsView ?r2 =
      (clock r + k, False, Some (clock r + 2500), Some [u1], fsInFlight r, publishedFs r)"
    by simp
  have w2: "wellFormed ?r2"
    using assms(1) by (simp add: wellFormed_ticks wellFormed_fireFileSystemChange)
  have s2: "\<not> suspended ?r2" using v2 by (simp add: fsView_def)
  from fs_record_then_window [OF w2 s2, of u2] v2 show ?thesis
    by (simp add: fsView_def)
qed

lemma two_fs_two_windows_view:
  assumes "wellFormed r" and "\<not> suspended r" and "pendingFileSystemChange r = None"
    and "2500 < k"
  shows "fsView (ticks 2500 (fireFileSystemChange u2 (ticks k (fireFileSystemChange u1 r)))) =
           (clock r + k + 2500, False, None, None, fsInFlight r @ [[u1], [u2]], publishedFs r)"
proof -
  let ?r1 = "fireFileSystemChange u1 r"
  let ?r2 = "ticks 2500 ?r1"
  let ?r3 = "ticks (k - 2500) ?r2"
  have d: "ticks k ?r1 = ?r3"
    using ticks_add [of 2500 "k - 2500" ?r1] assms(4) by simp
  have v2: "fsView ?r2 =
      (clock r + 2500, False, None, None, fsInFlight r @ [[u1]], publishedFs r)"
    using fs_record_then_window [OF assms(1,2), of u1] assms(3) by simp
  then have "fsDue ?r2 = None" by (simp add: fsView_def)
  from fsView_ticks_idle [OF this, of "k - 2500"] v2 assms(4)
  have v3: "fsView ?r3 =
      (clock r + k, False, None, None, fsInFlight r @ [[u1]], publishedFs r)"
    by (simp add: fsView_def)
  have w3: "wellFormed ?r3"
    using assms(1) by (simp add: wellFormed_ticks wellFormed_fireFileSystemChange)
  have s3: "\<not> suspended ?r3" using v3 by (simp add: fsView_def)
  from fs_record_then_window [OF w3 s3, of u2] v3 show ?thesis
    unfolding d by (simp add: fsView_def)
qed

text \<open>The filter call that settles publishes what it was given, less the ignored.\<close>

lemma excludeResolved_publishes:
  assumes "fsInFlight x = e # rest" and "\<forall>u\<in>set e. \<not> ig u" and "e \<noteq> []"
  shows "fsInFlight (excludeResolved ig x) = rest \<and>
         publishedFs (excludeResolved ig x) = publishedFs x @ [e]"
proof -
  have "filter (\<lambda>u. \<not> ig u) e = e" using assms(2) by (simp add: filter_id_conv)
  then show ?thesis
    using assms(1,3) by (simp add: excludeResolved_def excludeIgnoredUris_def Let_def)
qed

subsection \<open>The debounce windows (C6)\<close>

text \<open>
  C6. On a repository that is not suspended and has nothing pending, two \<open>fireChange\<close>
  calls less than 250 time units apart are flushed as one event, 250 time units after
  the second call and not before; two calls more than 250 time units apart are flushed
  as two events. Two filesystem notifications outside \<open>.git\<close> less than 2500 time units
  apart are flushed together, 2500 time units after the second and not before, and
  more than 2500 time units apart in two flushes; when the filter calls of the flushes
  settle and nothing is ignored, the one event with both locations, or the two events
  with one each, are published.
\<close>

theorem debounce_windows:
  assumes "wellFormed r" and "\<not> suspended r"
  shows "(pendingRepoChange r = None \<and> d < 250 \<longrightarrow>
            (\<exists>r' e. run ig (FireChange cs1 # replicate d Tick @ FireChange cs2 # replicate 250 Tick) r
                       = Inr r' \<and>
                     published r' = published r @ [e] \<and> set e = set cs1 \<union> set cs2) \<and>
            (\<forall>n<250. \<exists>r'. run ig (FireChange cs1 # replicate d Tick @ FireChange cs2 # replicate n Tick) r
                       = Inr r' \<and> published r' = published r)) \<and>
         (pendingRepoChange r = None \<and> 250 < d' \<longrightarrow>
            (\<exists>r' e1 e2. run ig (FireChange cs1 # replicate d' Tick @ FireChange cs2 # replicate 250 Tick) r
                       = Inr r' \<and>
                     published r' = published r @ [e1, e2] \<and>
                     set e1 = set cs1 \<and> set e2 = set cs2)) \<and>
         (pendingFileSystemChange r = None \<and> \<not> ignoreGitRegex_test (fsPath u1) \<and>
          \<not> ignoreGitRegex_test (fsPath u2) \<and> k < 2500 \<longrightarrow>
            (\<exists>r'. run ig (FileSystemChanged u1 # replicate k Tick @
                            FileSystemChanged u2 # replicate 2500 Tick) r = Inr r' \<and>
                  fsInFlight r' = fsInFlight r @ [[u1, u2]] \<and> publishedFs r' = publishedFs r) \<and>
            (\<forall>n<2500. \<exists>r'. run ig (FileSystemChanged u1 # replicate k Tick @
                                   FileSystemChanged u2 # replicate n Tick) r = Inr r' \<and>
                  fsInFlight r' = fsInFlight r \<and> publishedFs r' = publishedFs r) \<and>
            (fsInFlight r = [] \<and> \<not> ig u1 \<and> \<not> ig u2 \<longrightarrow>
               (\<exists>r'. run ig (FileSystemChanged u1 # replicate k Tick @
                               FileSystemChanged u2 # replicate 2500 Tick @ [ExcludeResolved]) r
                        = Inr r' \<and>
                     fsInFlight r' = [] \<and> publishedFs r' = publishedFs r @ [[u1, u2]]))) \<and>
         (pendingFileSystemChange r = None \<and> \<not> ignoreGitRegex_test (fsPath u1) \<and>
          \<not> ignoreGitRegex_test (fsPath u2) \<and> 2500 < k' \<longrightarrow>
            (\<exists>r'. run ig (FileSystemChanged u1 # replicate k' Tick @
                            FileSystemChanged u2 # replicate 2500 Tick) r = Inr r' \<and>
                  fsInFlight r' = fsInFlight r @ [[u1], [u2]] \<and> publishedFs r' = publishedFs r) \<and>
            (fsInFlight r = [] \<and> \<not> ig u1 \<and> \<not> ig u2 \<longrightarrow>
               (\<exists>r'. run ig (FileSystemChanged u1 # replicate k' Tick @
                               FileSystemChanged u2 # replicate 2500 Tick @
                               [ExcludeResolved, ExcludeResolved]) r
                        = Inr r' \<and>
                     fsInFlight r' = [] \<and> publishedFs r' = publishedFs r @ [[u1], [u2]])))"
proof (intro conjI impI)
  assume a: "pendingRepoChange r = None \<and> d < 250"
  have "run ig (FireChange cs1 # replicate d Tick @ FireChange cs2 # replicate 250 Tick) r
      = Inr (ticks 250 (fireChange cs2 (ticks d (fireChange cs1 r))))"
    by (simp add: run_append run_ticks)
  moreover have "set (pushChanges (pushChanges [] cs1) cs2) = set cs1 \<union> set cs2"
    by (simp add: set_pushChanges)
  ultimately show "\<exists>r' e. run ig (FireChange cs1 # replicate d Tick @ FireChange cs2 # replicate 250 Tick) r
                       = Inr r' \<and>
                     published r' = published r @ [e] \<and> set e = set cs1 \<union> set cs2"
    using two_records_one_window(1) [OF assms, of d cs2 cs1] a
    by (intro exI [of _ "ticks 250 (fireChange cs2 (ticks d (fireChange cs1 r)))"]
        exI [of _ "pushChanges (pushChanges [] cs1) cs2"]) simp
  show "\<forall>n<250. \<exists>r'. run ig (FireChange cs1 # replicate d Tick @ FireChange cs2 # replicate n Tick) r
                       = Inr r' \<and> published r' = published r"
  proof (intro allI impI)
    fix n :: nat
    assume n: "n < 250"
    have "run ig (FireChange cs1 # replicate d Tick @ FireChange cs2 # replicate n Tick) r
        = Inr (ticks n (fireChange cs2 (ticks d (fireChange cs1 r))))"
      by (simp add: run_append run_ticks)
    then show "\<exists>r'. run ig (FireChange cs1 # replicate d Tick @ FireChange cs2 # replicate n Tick) r
                       = Inr r' \<and> published r' = published r"
      using two_records_one_window(2) [OF assms _ _ n, of d cs2 cs1] a by simp
  qed
next
  assume a: "pendingRepoChange r = None \<and> 250 < d'"
  have "run ig (FireChange cs1 # replicate d' Tick @ FireChange cs2 # replicate 250 Tick) r
      = Inr (ticks 250 (fireChange cs2 (ticks d' (fireChange cs1 r))))"
    by (simp add: run_append run_ticks)
  moreover have "set (pushChanges [] cs1) = set cs1" "set (pushChanges [] cs2) = set cs2"
    by (simp_all add: set_pushChanges)
  ultimately show "\<exists>r' e1 e2. run ig (FireChange cs1 # replicate d' Tick @ FireChange cs2 # replicate 250 Tick) r
                       = Inr r' \<and>
                     published r' = published r @ [e1, e2] \<and>
                     set e1 = set cs1 \<and> set e2 = set cs2"
    using two_records_two_windows [OF assms, of d' cs2 cs1] a
    by (intro exI [of _ "ticks 250 (fireChange cs2 (ticks d' (fireChange cs1 r)))"]
        exI [of _ "pushChanges [] cs1"] exI [of _ "pushChanges [] cs2"]) simp
next
  assume a: "pendingFileSystemChange r = None \<and> \<not> ignoreGitRegex_test (fsPath u1) \<and>
          \<not> ignoreGitRegex_test (fsPath u2) \<and> k < 2500"
  let ?x = "ticks 2500 (fireFileSystemChange u2 (ticks k (fireFileSystemChange u1 r)))"
  from a have run1: "run ig (FileSystemChanged u1 # replicate k Tick @
                            FileSystemChanged u2 # replicate n Tick) r
      = Inr (ticks n (fireFileSystemChange u2 (ticks k (fireFileSystemChange u1 r))))" for n
    by (simp add: run_append run_ticks onFileSystemChanged_def)
  from a have v: "fsView ?x =
      (clock r + k + 2500, False, None, None, fsInFlight r @ [[u1, u2]], publishedFs r)"
    using two_fs_one_window_view [OF assms, of k u2 u1] by simp
  show "\<exists>r'. run ig (FileSystemChanged u1 # replicate k Tick @
                            FileSystemChanged u2 # replicate 2500 Tick) r = Inr r' \<and>
                  fsInFlight r' = fsInFlight r @ [[u1, u2]] \<and> publishedFs r' = publishedFs r"
    using run1 [of 2500] v by (simp add: fsView_def)
  show "\<forall>n<2500. \<exists>r'. run ig (FileSystemChanged u1 # replicate k Tick @
                                   FileSystemChanged u2 # replicate n Tick) r = Inr r' \<and>
                  fsInFlight r' = fsInFlight r \<and> publishedFs r' = publishedFs r"
  proof (intro allI impI)
    fix n :: nat
    assume "n < 2500"
    with a two_fs_before_window [OF assms, of k n u2 u1] run1 [of n]
    show "\<exists>r'. run ig (FileSystemChanged u1 # replicate k Tick @
                                   FileSystemChanged u2 # replicate n Tick) r = Inr r' \<and>
                  fsInFlight r' = fsInFlight r \<and> publishedFs r' = publishedFs r"
      by (simp add: fsView_def)
  qed
  assume b: "fsInFlight r = [] \<and> \<not> ig u1 \<and> \<not> ig u2"
  have run2: "run ig (FileSystemChanged u1 # replicate k Tick @
                       FileSystemChanged u2 # replicate 2500 Tick @ [ExcludeResolved]) r
      = Inr (excludeResolved ig ?x)"
    using a by (simp add: run_append run_ticks onFileSystemChanged_def)
  from v b have "fsInFlight ?x = [u1, u2] # []" "publishedFs ?x = publishedFs r"
    by (simp_all add: fsView_def)
  with excludeResolved_publishes [of ?x "[u1, u2]" "[]" ig] b run2
  show "\<exists>r'. run ig (FileSystemChanged u1 # replicate k Tick @
                               FileSystemChanged u2 # replicate 2500 Tick @ [ExcludeResolved]) r
                        = Inr r' \<and>
                     fsInFlight r' = [] \<and> publishedFs r' = publishedFs r @ [[u1, u2]]"
    by simp
next
  assume a: "pendingFileSystemChange r = None \<and> \<not> ignoreGitRegex_test (fsPath u1) \<and>
          \<not> ignoreGitRegex_test (fsPath u2) \<and> 2500 < k'"
  let ?x = "ticks 2500 (fireFileSystemChange u2 (ticks k' (fireFileSystemChange u1 r)))"
  from a have v: "fsView ?x =
      (clock r + k' + 2500, False, None, None, fsInFlight r @ [[u1], [u2]], publishedFs r)"
    using two_fs_two_windows_view [OF assms, of k' u2 u1] by simp
  from a have run1: "run ig (FileSystemChanged u1 # replicate k' Tick @
                            FileSystemChanged u2 # replicate 2500 Tick) r = Inr ?x"
    by (simp add: run_append run_ticks onFileSystemChanged_def)
  show "\<exists>r'. run ig (FileSystemChanged u1 # replicate k' Tick @
                            FileSystemChanged u2 # replicate 2500 Tick) r = Inr r' \<and>
                  fsInFlight r' = fsInFlight r @ [[u1], [u2]] \<and> publishedFs r' = publishedFs r"
    using run1 v by (simp add: fsView_def)
  assume b: "fsInFlight r = [] \<and> \<not> ig u1 \<and> \<not> ig u2"
  have run2: "run ig (FileSystemChanged u1 # replicate k' Tick @
                       FileSystemChanged u2 # replicate 2500 Tick @
                       [ExcludeResolved, ExcludeResolved]) r
      = Inr (excludeResolved ig (excludeResolved ig ?x))"
    using a by (simp add: run_append run_ticks onFileSystemChanged_def)
  from v b have x: "fsInFlight ?x = [u1] # [[u2]]" "publishedFs ?x = publishedFs r"
    by (simp_all add: fsView_def)
  from excludeResolved_publishes [of ?x "[u1]" "[[u2]]" ig] b x
  have y: "fsInFlight (excludeResolved ig ?x) = [u2] # []"
    "publishedFs (excludeResolved ig ?x) = publishedFs r @ [[u1]]"
    by simp_all
  from excludeResolved_publishes [of "excludeResolved ig ?x" "[u2]" "[]" ig] b y run2
  show "\<exists>r'. run ig (FileSystemChanged u1 # replicate k' Tick @
                               FileSystemChanged u2 # replicate 2500 Tick @
                               [ExcludeResolved, ExcludeResolved]) r
                        = Inr r' \<and>
                     fsInFlight r' = [] \<and> publishedFs r' = publishedFs r @ [[u1], [u2]]"
    by simp
qed

text \<open>
  C6, witness: a fresh repository, gaps of 3 and 300 time units between two recorded
  changes, gaps of 100 and 3000 between two filesystem notifications, nothing
  ignored.
\<close>

theorem debounce_windows_witness:
  "wellFormed (newRepository True False False) \<and>
   \<not> suspended (newRepository True False False) \<and>
   pendingRepoChange (newRepository True False False) = None \<and>
   pendingFileSystemChange (newRepository True False False) = None \<and>
   fsInFlight (newRepository True False False) = [] \<and>
   (3::nat) < 250 \<and> (250::nat) < 300 \<and> (100::nat) < 2500 \<and> (2500::nat) < 3000 \<and>
   \<not> ignoreGitRegex_test ''/repo/src/a.ts'' \<and> \<not> ignoreGitRegex_test ''/repo/README.md'' \<and>
   (\<exists>r' e. run (\<lambda>u. False)
              (FireChange [Heads] # replicate 3 Tick @ FireChange [Tags] # replicate 250 Tick)
              (newRepository True False False) = Inr r' \<and>
            published r' = [e] \<and> set e = set [Heads] \<union> set [Tags]) \<and>
   (\<exists>r' e1 e2. run (\<lambda>u. False)
              (FireChange [Heads] # replicate 300 Tick @ FireChange [Tags] # replicate 250 Tick)
              (newRepository True False False) = Inr r' \<and>
            published r' = [e1, e2] \<and> set e1 = set [Heads] \<and> set e2 = set [Tags]) \<and>
   (\<exists>r'. run (\<lambda>u. False)
              (FileSystemChanged \<lparr>path = ''/repo/src/a.ts'', fsPath = ''/repo/src/a.ts''\<rparr> #
               replicate 100 Tick @
               FileSystemChanged \<lparr>path = ''/repo/README.md'', fsPath = ''/repo/README.md''\<rparr> #
               replicate 2500 Tick @ [ExcludeResolved])
              (newRepository True False False) = Inr r' \<and>
            fsInFlight r' = [] \<and>
            publishedFs r' = [[\<lparr>path = ''/repo/src/a.ts'', fsPath = ''/repo/src/a.ts''\<rparr>,
                               \<lparr>path = ''/repo/README.md'', fsPath = ''/repo/README.md''\<rparr>]]) \<and>
   (\<exists>r'. run (\<lambda>u. False)
              (FileSystemChanged \<lparr>path = ''/repo/src/a.ts'', fsPath = ''/repo/src/a.ts''\<rparr> #
               replicate 3000 Tick @
               FileSystemChanged \<lparr>path = ''/repo/README.md'', fsPath = ''/repo/README.md''\<rparr> #
               replicate 2500 Tick @ [ExcludeResolved, ExcludeResolved])
              (newRepository True False False) = Inr r' \<and>
            fsInFlight r' = [] \<and>
            publishedFs r' = [[\<lparr>path = ''/repo/src/a.ts'', fsPath = ''/repo/src/a.ts''\<rparr>],
                              [\<lparr>path = ''/repo/README.md'', fsPath = ''/repo/README.md''\<rparr>]])"
proof -
  have h1: "wellFormed (newRepository True False False)"
    by (rule wellFormed_new)
  have h2: "\<not> suspended (newRepository True False False)"
    by (simp add: newRepository_def)
  have h3: "pendingRepoChange (newRepository True False False) = None"
    "pendingFileSystemChange (newRepository True False False) = None"
    by (simp_all add: newRepository_def)
  have h4: "\<not> ignoreGitRegex_test ''/repo/src/a.ts''" "\<not> ignoreGitRegex_test ''/repo/README.md''"
    by (simp_all add: ignoreGitRegex_at_def startsWith_def)
  have h5: "(3::nat) < 250" "(250::nat) < 300" "(100::nat) < 2500" "(2500::nat) < 3000"
    by simp_all
  have h6: "fsPath \<lparr>path = ''/repo/src/a.ts'', fsPath = ''/repo/src/a.ts''\<rparr> = ''/repo/src/a.ts''"
    "fsPath \<lparr>path = ''/repo/README.md'', fsPath = ''/repo/README.md''\<rparr> = ''/repo/README.md''"
    by simp_all
  have h7: "\<not> False" by simp
  have p: "published (newRepository True False False) = []"
    "fsInFlight (newRepository True False False) = []"
    "publishedFs (newRepository True False False) = []"
    by (simp_all add: newRepository_def)
  have q: "([]::Uri list list) = []" by simp
  show ?thesis
    using h1 h2 h3 h4 h5 h7 q
      debounce_windows [OF h1 h2, of 3 "\<lambda>u. False" "[Heads]" "[Tags]" 300
        "\<lparr>path = ''/repo/src/a.ts'', fsPath = ''/repo/src/a.ts''\<rparr>"
        "\<lparr>path = ''/repo/README.md'', fsPath = ''/repo/README.md''\<rparr>" 100 3000]
    unfolding p h6 append_Nil by blast
qed

lemma fsClean_new: "fsClean (newRepository a b c)"
  by (simp add: fsClean_def newRepository_def)

lemma fsClean_fsView: "fsView r' = fsView r \<Longrightarrow> fsClean r' = fsClean r"
  by (simp add: fsClean_def fsView_def)

lemma fsClean_fireChange: "fsClean (fireChange cs r) = fsClean r"
  by (rule fsClean_fsView) (rule fsView_fireChange)

lemma fsClean_onRepositoryChanged: "fsClean r \<Longrightarrow> fsClean (onRepositoryChanged uri r)"
proof (rule onRepositoryChanged_channels)
  fix cs :: "RepositoryChange list" and r' :: Repository
  assume "fsClean r" "sameChannels r r'"
  then have "fsClean r'" using fsClean_fsView [of r' r] by (simp add: sameChannels_def)
  then show "fsClean (fireChange cs r')" by (simp add: fsClean_fireChange)
qed

lemma fsClean_onFileSystemChanged: "fsClean r \<Longrightarrow> fsClean (onFileSystemChanged u r)"
  by (auto simp: onFileSystemChanged_def fireFileSystemChange_def Let_def fsClean_def
      noGitUris_def split: option.splits)

lemma fsClean_suspend: "fsClean r \<Longrightarrow> fsClean (suspend r)"
  by (simp add: fsClean_def suspend_def)

lemma fsClean_resume: "fsClean r \<Longrightarrow> resume r = Inr r' \<Longrightarrow> fsClean r'"
  by (auto simp: resume_def Let_def callFireChangeDebounced_def
      callFireFileSystemChangeDebounced_def fsClean_def split: option.splits if_splits)

lemma fsClean_tick: "fsClean r \<Longrightarrow> fsClean (tick r)"
  by (auto simp: tick_def expireChange_def expireFileSystemChange_def fireChangeCore_def
      fireFileSystemChangeCore_def fsClean_def split: option.splits)

lemma noGitUris_filter: "noGitUris us \<Longrightarrow> noGitUris (filter P us)"
  by (induction us) (auto simp: noGitUris_def)

lemma fsClean_excludeResolved: "fsClean r \<Longrightarrow> fsClean (excludeResolved ig r)"
  by (auto simp: excludeResolved_def Let_def fsClean_def excludeIgnoredUris_def noGitUris_filter
      split: list.splits)

lemma fsClean_excludeRejected: "fsClean r \<Longrightarrow> fsClean (excludeRejected r)"
  by (cases "fsInFlight r") (auto simp: excludeRejected_def fsClean_def)

lemma fsClean_step: "fsClean r \<Longrightarrow> step ig a r = Inr r' \<Longrightarrow> fsClean r'"
  by (cases a)
    (auto simp: fsClean_onRepositoryChanged fsClean_onFileSystemChanged fsClean_fireChange
      fsClean_suspend fsClean_tick fsClean_excludeResolved fsClean_excludeRejected
      dest: fsClean_resume)

lemma fsClean_run: "fsClean r \<Longrightarrow> run ig as r = Inr r' \<Longrightarrow> fsClean r'"
proof (induction as arbitrary: r)
  case Nil
  then show ?case by simp
next
  case (Cons a as)
  then show ?case
    by (auto split: sum.splits dest: fsClean_step)
qed

lemma published_after_window:
  "publishedFs (excludeResolved (\<lambda>u. False)
     (ticks 2500 (fireFileSystemChange u (newRepository True False False)))) = [[u]]"
proof -
  have w: "wellFormed (newRepository True False False)"
    by (rule wellFormed_new)
  have s: "\<not> suspended (newRepository True False False)"
    by (simp add: newRepository_def)
  from fs_record_then_window [OF w s, of u]
  have "fsView (ticks 2500 (fireFileSystemChange u (newRepository True False False)))
          = (2500, False, None, None, [[u]], [])"
    by (simp add: newRepository_def)
  then show ?thesis
    by (simp add: fsView_def excludeResolved_def excludeIgnoredUris_def Let_def)
qed

subsection \<open>Filesystem events never name the control directory (C10)\<close>

text \<open>
  C10. In every state reached from the constructor, no location that is pending,
  awaiting \<open>excludeIgnoredUris\<close> or in a published filesystem event has an \<open>fsPath\<close>
  that matches \<open>ignoreGitRegex\<close>; in particular none lies inside a \<open>.git\<close> directory.
\<close>

theorem no_git_uri_is_published:
  assumes "run ig as (newRepository supports susp cl) = Inr r"
    and "pendingFileSystemChange r = Some e \<or> e \<in> set (fsInFlight r) \<or> e \<in> set (publishedFs r)"
    and "u \<in> set e"
  shows "\<not> ignoreGitRegex_test (fsPath u) \<and> \<not> insideGitDir (fsPath u)"
proof -
  have "fsClean r"
    using fsClean_run [OF fsClean_new assms(1)] .
  then have "noGitUris e"
    using assms(2) by (auto simp: fsClean_def list_all_iff)
  then have "\<not> ignoreGitRegex_test (fsPath u)"
    using assms(3) by (simp add: noGitUris_def list_all_iff)
  then show ?thesis using insideGitDir_ignored by blast
qed

text \<open>
  C10, witness: a notification for \<open>/repo/.git/index\<close>, one for \<open>/repo/src/a.ts\<close>, 2500
  time units and the settling of the filter call: the one published event holds
  \<open>/repo/src/a.ts\<close> alone.
\<close>

theorem no_git_uri_is_published_witness:
  "run (\<lambda>u. False)
      (FileSystemChanged \<lparr>path = ''/repo/.git/index'', fsPath = ''/repo/.git/index''\<rparr> #
       FileSystemChanged \<lparr>path = ''/repo/src/a.ts'', fsPath = ''/repo/src/a.ts''\<rparr> #
       replicate 2500 Tick @ [ExcludeResolved])
      (newRepository True False False)
     = Inr (excludeResolved (\<lambda>u. False)
             (ticks 2500
               (fireFileSystemChange \<lparr>path = ''/repo/src/a.ts'', fsPath = ''/repo/src/a.ts''\<rparr>
                 (newRepository True False False)))) \<and>
   publishedFs (excludeResolved (\<lambda>u. False)
             (ticks 2500
               (fireFileSystemChange \<lparr>path = ''/repo/src/a.ts'', fsPath = ''/repo/src/a.ts''\<rparr>
                 (newRepository True False False))))
     = [[\<lparr>path = ''/repo/src/a.ts'', fsPath = ''/repo/src/a.ts''\<rparr>]] \<and>
   \<not> ignoreGitRegex_test ''/repo/src/a.ts'' \<and> \<not> insideGitDir ''/repo/src/a.ts''"
proof -
  let ?u = "\<lparr>path = ''/repo/src/a.ts'', fsPath = ''/repo/src/a.ts''\<rparr>"
  let ?r = "excludeResolved (\<lambda>u. False)
             (ticks 2500 (fireFileSystemChange ?u (newRepository True False False)))"
  have h1: "run (\<lambda>u. False)
      (FileSystemChanged \<lparr>path = ''/repo/.git/index'', fsPath = ''/repo/.git/index''\<rparr> #
       FileSystemChanged ?u # replicate 2500 Tick @ [ExcludeResolved])
      (newRepository True False False) = Inr ?r"
    by (simp add: run_append run_ticks onFileSystemChanged_def ignoreGitRegex_at_def
        startsWith_def)
  have h2: "publishedFs ?r = [[?u]]"
    by (rule published_after_window)
  then have h3: "[?u] \<in> set (publishedFs ?r)" by simp
  have "pendingFileSystemChange ?r = Some [?u] \<or> [?u] \<in> set (fsInFlight ?r) \<or>
        [?u] \<in> set (publishedFs ?r)"
    using h3 by blast
  from no_git_uri_is_published [OF h1 this, of ?u] h1 h2 show ?thesis by simp
qed

text \<open>Every sequence of events runs without error from the constructor's state.\<close>

lemma run_total: "\<exists>r. run ig as (newRepository supports susp cl) = Inr r"
  using run_wellFormed [OF wellFormed_new] by blast

end
